theory Spec2Isabelle
  imports Complex_Main "HOL-Library.AList" "HOL-Library.Sublist"
begin

section \<open>Strings\<close>

text \<open>
  A Python \<open>str\<close> is a sequence of Unicode code points, so a string is a list of
  code points. \<open>u\<close> turns an ASCII literal into such a list.
\<close>

type_synonym pystr = "nat list"

definition u :: "string \<Rightarrow> pystr" where
  "u s = map of_char s"

text \<open>
  \<open>str.isspace\<close> on one code point: the characters \<open>str.strip()\<close> removes when it is
  called without an argument.
\<close>

definition isspace :: "nat \<Rightarrow> bool" where
  "isspace c = (c \<in> {9, 10, 11, 12, 13, 28, 29, 30, 31, 32, 133, 160, 5760,
      8192, 8193, 8194, 8195, 8196, 8197, 8198, 8199, 8200, 8201, 8202,
      8232, 8233, 8239, 8287, 12288})"

text \<open>\<open>s.strip()\<close>: leading and trailing whitespace removed.\<close>

definition py_strip :: "pystr \<Rightarrow> pystr" where
  "py_strip s = rev (dropWhile isspace (rev (dropWhile isspace s)))"

text \<open>The truth value of a string: \<open>not s\<close> holds of the empty string only.\<close>

definition falsy :: "pystr \<Rightarrow> bool" where
  "falsy s = (s = [])"

section \<open>The effectively-empty test of \<open>__init__.py\<close>\<close>

text \<open>
  \<open>re.sub('<[^<]+?>', '', s)\<close>. A match starts at \<open><\<close>, takes at least one character
  other than \<open><\<close>, and ends at the first \<open>>\<close> that follows; the lazy quantifier stops
  at the first \<open>>\<close> after the mandatory character, and a \<open><\<close> met before it makes the
  attempt at this position fail. \<open>tag_end\<close> scans after the mandatory character and
  returns the text behind the match. The code point of \<open><\<close> is 60, that of \<open>>\<close> is 62.
\<close>

fun tag_end :: "pystr \<Rightarrow> pystr option" where
  "tag_end [] = None"
| "tag_end (c # cs) =
     (if c = 62 then Some cs else if c = 60 then None else tag_end cs)"

fun match_tag :: "pystr \<Rightarrow> pystr option" where
  "match_tag (a # b # cs) = (if a = 60 \<and> b \<noteq> 60 then tag_end cs else None)"
| "match_tag _ = None"

lemma tag_end_length: "tag_end cs = Some r \<Longrightarrow> length r < length cs"
  by (induction cs) (auto split: if_splits)

lemma match_tag_length: "match_tag s = Some r \<Longrightarrow> length r < length s"
  by (cases s rule: match_tag.cases) (auto split: if_splits dest: tag_end_length)

function sub_tags :: "pystr \<Rightarrow> pystr" where
  "sub_tags [] = []"
| "sub_tags (c # cs) =
     (case match_tag (c # cs) of
        Some r \<Rightarrow> sub_tags r
      | None \<Rightarrow> c # sub_tags cs)"
  by pat_completeness auto
termination
  by (relation "measure length") (auto dest: match_tag_length)

text \<open>\<open>s.replace('&nbsp;', '')\<close>: every occurrence, found left to right, is deleted.\<close>

definition nbsp :: pystr where
  "nbsp = u ''&nbsp;''"

fun replace_nbsp :: "pystr \<Rightarrow> pystr" where
  "replace_nbsp [] = []"
| "replace_nbsp (c # cs) =
     (if prefix nbsp (c # cs) then replace_nbsp (drop 5 cs) else c # replace_nbsp cs)"

definition is_field_effectively_empty :: "pystr \<Rightarrow> bool" where
  "is_field_effectively_empty field_content =
     (if falsy field_content then True
      else let text_only = sub_tags field_content
           in falsy (replace_nbsp (py_strip text_only)))"

section \<open>The engine facade of \<open>bulk.py\<close>\<close>

text \<open>
  Python exceptions are values. \<open>TokenizerUnavailable\<close> is the analyzer's failure,
  \<open>NotFoundError\<close> is raised by \<open>get_note\<close> on an unknown id, and \<open>TypeError\<close> by
  \<open>None + '::'\<close>.
\<close>

datatype error = TokenizerUnavailable | NotFoundError | TypeError

text \<open>
  \<open>utils.removeFurigana\<close> and \<open>reading.MecabController.reading\<close> are imported by
  \<open>bulk.py\<close> from modules that are not among the source files, so the code under
  verification takes them as parameters: the first is a text transform, the second maps
  (text, ignoreNumbers, useRubyTags) to the annotated text or raises.
\<close>

record deps =
  utils_removeFurigana :: "pystr \<Rightarrow> pystr"
  mecab_reading :: "pystr \<Rightarrow> bool \<Rightarrow> bool \<Rightarrow> error + pystr"

definition generateFurigana :: "deps \<Rightarrow> pystr \<Rightarrow> bool \<Rightarrow> bool \<Rightarrow> error + pystr" where
  "generateFurigana D html ignore_numbers use_ruby_tags =
     (if falsy html \<or> falsy (py_strip html) then Inr []
      else let html_no_furigana = utils_removeFurigana D html
           in mecab_reading D html_no_furigana ignore_numbers use_ruby_tags)"

section \<open>The web demo of \<open>app.py\<close>\<close>

text \<open>
  The JSON body of a request to \<open>/api/furigana\<close>: either key may be absent.
  The endpoint calls \<open>mecab.reading(text, useRubyTags=use_ruby)\<close>, so the reader's own
  default for \<open>ignoreNumbers\<close> applies; it is a parameter here.
\<close>

record request =
  req_text :: "pystr option"
  req_useRubyTags :: "bool option"

definition api_furigana :: "deps \<Rightarrow> bool \<Rightarrow> request \<Rightarrow> error + pystr" where
  "api_furigana D default_ignore_numbers data =
     (let text = (case req_text data of None \<Rightarrow> [] | Some t \<Rightarrow> t);
          use_ruby = (case req_useRubyTags data of None \<Rightarrow> False | Some b \<Rightarrow> b)
      in mecab_reading D text default_ignore_numbers use_ruby)"

section \<open>Stripping existing furigana\<close>

text \<open>
  Modelled from the spec: \<open>utils.removeFurigana\<close>, which \<open>bulk.py\<close> and \<open>__init__.py\<close>
  import from a module that is not among the source files. The definitions below follow
  section 4.1 of the specification (Furigana Codec). Where its words leave a choice, the
  reading taken is:
  \<^item> bracket form: a base run is one or more characters that are no bracket, no
    whitespace and no \<open><\<close> or \<open>>\<close>; the reading runs to the first \<open>]\<close> and holds no
    \<open><\<close> or \<open>>\<close> (it does not cross a tag boundary); the bracket and its contents are
    removed, the base run is kept;
  \<^item> ruby form: \<open><ruby>\<close>BASE\<open><rt>\<close>READING\<open></rt></ruby>\<close>, with an optional
    \<open><rp>\<close>...\<open></rp>\<close> element before \<open><rt>\<close> and after \<open></rt>\<close>; BASE, READING and the
    content of \<open><rp>\<close> hold no \<open><\<close> or \<open>>\<close>, so each is the shortest possible; only
    BASE is kept;
  \<^item> a pass scans the text from left to right and tries both forms at every position
    that is not inside an annotation it has removed; passes are repeated until one
    changes nothing, so that the result holds no annotation and stripping is idempotent,
    as the contract of section 4.1 demands.
\<close>

text \<open>
  Modelled from the spec: matching a literal piece of markup at the start of a text;
  the result is the text behind it.
\<close>

definition strip_prefix :: "pystr \<Rightarrow> pystr \<Rightarrow> pystr option" where
  "strip_prefix p s = (if prefix p s then Some (drop (length p) s) else None)"

text \<open>
  Modelled from the spec: the characters of BASE, READING and of the content of
  \<open><rp>\<close> (no \<open><\<close>, code point 60, and no \<open>>\<close>, code point 62), the characters of a
  bracketed reading (also no \<open>]\<close>, code point 93), and the characters of a base run
  before a bracket (also no \<open>[\<close>, code point 91, and no whitespace).
\<close>

definition plain_char :: "nat \<Rightarrow> bool" where
  "plain_char c = (c \<noteq> 60 \<and> c \<noteq> 62)"

definition reading_char :: "nat \<Rightarrow> bool" where
  "reading_char c = (c \<noteq> 93 \<and> c \<noteq> 60 \<and> c \<noteq> 62)"

definition base_char :: "nat \<Rightarrow> bool" where
  "base_char c = (c \<noteq> 91 \<and> c \<noteq> 93 \<and> c \<noteq> 60 \<and> c \<noteq> 62 \<and> \<not> isspace c)"

text \<open>
  Modelled from the spec: the optional fallback parenthesis \<open><rp>\<close>...\<open></rp>\<close>.
\<close>

definition match_rp :: "pystr \<Rightarrow> pystr option" where
  "match_rp s =
     (case strip_prefix (u ''<rp>'') s of
        None \<Rightarrow> None
      | Some r \<Rightarrow> strip_prefix (u ''</rp>'') (dropWhile plain_char r))"

definition skip_rp :: "pystr \<Rightarrow> pystr" where
  "skip_rp s = (case match_rp s of None \<Rightarrow> s | Some r \<Rightarrow> r)"

text \<open>
  Modelled from the spec: the ruby form at the start of a text; the result is BASE
  and the text behind the annotation.
\<close>

definition match_ruby :: "pystr \<Rightarrow> (pystr \<times> pystr) option" where
  "match_ruby s =
     (case strip_prefix (u ''<ruby>'') s of
        None \<Rightarrow> None
      | Some r \<Rightarrow>
          (case strip_prefix (u ''<rt>'') (skip_rp (dropWhile plain_char r)) of
             None \<Rightarrow> None
           | Some r2 \<Rightarrow>
               (case strip_prefix (u ''</rt>'') (dropWhile plain_char r2) of
                  None \<Rightarrow> None
                | Some r3 \<Rightarrow>
                    (case strip_prefix (u ''</ruby>'') (skip_rp r3) of
                       None \<Rightarrow> None
                     | Some r4 \<Rightarrow> Some (takeWhile plain_char r, r4)))))"

text \<open>
  Modelled from the spec: the bracket and its contents at the start of a text; the
  result is the text behind the closing bracket.
\<close>

definition match_bracket :: "pystr \<Rightarrow> pystr option" where
  "match_bracket s =
     (case strip_prefix (u ''['') s of
        None \<Rightarrow> None
      | Some r \<Rightarrow> strip_prefix (u '']'') (dropWhile reading_char r))"

lemma strip_prefix_length: "strip_prefix p s = Some r \<Longrightarrow> length r + length p = length s"
  by (auto simp: strip_prefix_def prefix_def split: if_splits)

lemma dropWhile_length: "length (dropWhile P s) \<le> length s"
  by (induction s) auto

lemma skip_rp_length: "length (skip_rp s) \<le> length s"
proof (cases "match_rp s")
  case None
  then show ?thesis by (simp add: skip_rp_def)
next
  case (Some r)
  then obtain r1 where a: "strip_prefix (u ''<rp>'') s = Some r1"
    and b: "strip_prefix (u ''</rp>'') (dropWhile plain_char r1) = Some r"
    by (auto simp: match_rp_def split: option.splits)
  have "length r1 \<le> length s"
    using strip_prefix_length [OF a] by (simp add: u_def)
  moreover have "length r \<le> length (dropWhile plain_char r1)"
    using strip_prefix_length [OF b] by (simp add: u_def)
  moreover have "length (dropWhile plain_char r1) \<le> length r1"
    by (rule dropWhile_length)
  ultimately show ?thesis using Some by (simp add: skip_rp_def)
qed

lemma match_bracket_length:
  assumes "match_bracket s = Some r"
  shows "length r < length s"
proof -
  from assms obtain r1 where a: "strip_prefix (u ''['') s = Some r1"
    and b: "strip_prefix (u '']'') (dropWhile reading_char r1) = Some r"
    by (auto simp: match_bracket_def split: option.splits)
  have "length r1 < length s"
    using strip_prefix_length [OF a] by (simp add: u_def)
  moreover have "length r < length (dropWhile reading_char r1)"
    using strip_prefix_length [OF b] by (simp add: u_def)
  moreover have "length (dropWhile reading_char r1) \<le> length r1"
    by (rule dropWhile_length)
  ultimately show ?thesis by linarith
qed

lemma match_ruby_length:
  assumes "match_ruby s = Some (b, r)"
  shows "length r < length s"
proof -
  from assms obtain r1 r2 r3 where
    a: "strip_prefix (u ''<ruby>'') s = Some r1" and
    b: "strip_prefix (u ''<rt>'') (skip_rp (dropWhile plain_char r1)) = Some r2" and
    c: "strip_prefix (u ''</rt>'') (dropWhile plain_char r2) = Some r3" and
    d: "strip_prefix (u ''</ruby>'') (skip_rp r3) = Some r"
    by (auto simp: match_ruby_def split: option.splits)
  have "length r1 < length s"
    using strip_prefix_length [OF a] by (simp add: u_def)
  moreover have "length r2 \<le> length (skip_rp (dropWhile plain_char r1))"
    using strip_prefix_length [OF b] by (simp add: u_def)
  moreover have "length (skip_rp (dropWhile plain_char r1)) \<le> length r1"
    using skip_rp_length [of "dropWhile plain_char r1"] dropWhile_length [of plain_char r1]
    by linarith
  moreover have "length r3 \<le> length (dropWhile plain_char r2)"
    using strip_prefix_length [OF c] by (simp add: u_def)
  moreover have "length (dropWhile plain_char r2) \<le> length r2"
    by (rule dropWhile_length)
  moreover have "length r \<le> length (skip_rp r3)"
    using strip_prefix_length [OF d] by (simp add: u_def)
  moreover have "length (skip_rp r3) \<le> length r3"
    by (rule skip_rp_length)
  ultimately show ?thesis by linarith
qed

text \<open>
  Modelled from the spec: one pass of \<open>removeFurigana\<close> over a text. The flag says
  whether the character just copied can end a base run, so that a \<open>[\<close> is an annotation
  only directly after one.
\<close>

function strip_from :: "bool \<Rightarrow> pystr \<Rightarrow> pystr" where
  "strip_from b [] = []"
| "strip_from b (c # cs) =
     (case match_ruby (c # cs) of
        Some (base, r) \<Rightarrow> base @ strip_from False r
      | None \<Rightarrow>
          (case (if b then match_bracket (c # cs) else None) of
             Some r \<Rightarrow> strip_from False r
           | None \<Rightarrow> c # strip_from (base_char c) cs))"
  by pat_completeness auto
termination
  by (relation "measure (\<lambda>(b, s). length s)")
    (auto dest: match_ruby_length match_bracket_length split: if_splits)

text \<open>
  Modelled from the spec: a pass from the start of the text, where no base run has been
  seen yet.
\<close>

definition strip_pass :: "pystr \<Rightarrow> pystr" where
  "strip_pass html = strip_from False html"

text \<open>A pass that changes the text makes it shorter, so repeating passes ends.\<close>

lemma takeWhile_dropWhile_length: "length (takeWhile P s) + length (dropWhile P s) = length s"
  by (induction s) auto

lemma match_ruby_shorter:
  assumes "match_ruby s = Some (b, r)"
  shows "length b + length r < length s"
proof -
  from assms obtain r1 r2 r3 where
    a: "strip_prefix (u ''<ruby>'') s = Some r1" and
    b: "strip_prefix (u ''<rt>'') (skip_rp (dropWhile plain_char r1)) = Some r2" and
    c: "strip_prefix (u ''</rt>'') (dropWhile plain_char r2) = Some r3" and
    d: "strip_prefix (u ''</ruby>'') (skip_rp r3) = Some r" and
    e: "b = takeWhile plain_char r1"
    by (auto simp: match_ruby_def split: option.splits)
  have "length r1 < length s"
    using strip_prefix_length [OF a] by (simp add: u_def)
  moreover have "length r2 \<le> length (skip_rp (dropWhile plain_char r1))"
    using strip_prefix_length [OF b] by (simp add: u_def)
  moreover have "length (skip_rp (dropWhile plain_char r1)) \<le> length (dropWhile plain_char r1)"
    by (rule skip_rp_length)
  moreover have "length b + length (dropWhile plain_char r1) = length r1"
    unfolding e by (rule takeWhile_dropWhile_length)
  moreover have "length r3 \<le> length (dropWhile plain_char r2)"
    using strip_prefix_length [OF c] by (simp add: u_def)
  moreover have "length (dropWhile plain_char r2) \<le> length r2"
    by (rule dropWhile_length)
  moreover have "length r \<le> length (skip_rp r3)"
    using strip_prefix_length [OF d] by (simp add: u_def)
  moreover have "length (skip_rp r3) \<le> length r3"
    by (rule skip_rp_length)
  ultimately show ?thesis by linarith
qed

lemma strip_from_length: "length (strip_from b s) \<le> length s"
proof (induction b s rule: strip_from.induct)
  case (1 b)
  then show ?case by simp
next
  case (2 b c cs)
  show ?case
  proof (cases "match_ruby (c # cs)")
    case (Some br)
    obtain base r where br: "br = (base, r)" by (cases br)
    with Some "2.IH"(3) [OF Some br [symmetric]] match_ruby_shorter [of "c # cs" base r]
    show ?thesis by simp
  next
    case None
    show ?thesis
    proof (cases "if b then match_bracket (c # cs) else None")
      case (Some r)
      with None "2.IH"(2) [OF None Some] match_bracket_length [of "c # cs" r] show ?thesis
        by (auto split: if_splits)
    next
      case N: None
      with None "2.IH"(1) [OF None N] show ?thesis by simp
    qed
  qed
qed

lemma strip_pass_shorter: "strip_pass x \<noteq> x \<Longrightarrow> length (strip_pass x) < length x"
proof -
  assume a: "strip_pass x \<noteq> x"
  have "length (strip_pass x) \<le> length x" by (simp add: strip_pass_def strip_from_length)
  moreover have "length (strip_pass x) \<noteq> length x"
  proof
    assume e: "length (strip_pass x) = length x"
    have "length (strip_from b s) = length s \<Longrightarrow> strip_from b s = s" for b s
    proof (induction b s rule: strip_from.induct)
      case (1 b)
      then show ?case by simp
    next
      case (2 b c cs)
      show ?case
      proof (cases "match_ruby (c # cs)")
        case (Some br)
        obtain base r where br: "br = (base, r)" by (cases br)
        with Some "2.prems" match_ruby_shorter [of "c # cs" base r] strip_from_length [of False r]
        show ?thesis by simp
      next
        case None
        show ?thesis
        proof (cases "if b then match_bracket (c # cs) else None")
          case (Some r)
          with None "2.prems" match_bracket_length [of "c # cs" r] strip_from_length [of False r]
          show ?thesis by (auto split: if_splits)
        next
          case N: None
          with None "2.IH"(1) [OF None N] "2.prems" show ?thesis by (auto split: if_splits)
        qed
      qed
    qed
    with e a show False by (simp add: strip_pass_def)
  qed
  ultimately show ?thesis by linarith
qed

text \<open>
  Modelled from the spec: \<open>removeFurigana\<close> of \<open>utils\<close>, which removes every annotation
  of either encoding: passes are made until one leaves the text as it is.
\<close>

function removeFurigana :: "pystr \<Rightarrow> pystr" where
  "removeFurigana html =
     (if strip_pass html = html then html else removeFurigana (strip_pass html))"
  by pat_completeness auto
termination
  by (relation "measure length") (auto dest: strip_pass_shorter)

declare removeFurigana.simps [simp del]

text \<open>
  Modelled from the spec: a text contains an annotation when one of the two forms
  matches at some position of it.
\<close>

primrec annotated_from :: "bool \<Rightarrow> pystr \<Rightarrow> bool" where
  "annotated_from b [] = False"
| "annotated_from b (c # cs) =
     (match_ruby (c # cs) \<noteq> None \<or> (b \<and> match_bracket (c # cs) \<noteq> None)
      \<or> annotated_from (base_char c) cs)"

text \<open>
  Modelled from the spec: a text with an annotation of either encoding.
\<close>

definition annotated :: "pystr \<Rightarrow> bool" where
  "annotated html = annotated_from False html"

section \<open>Analyzers for concrete evaluation\<close>

text \<open>
  The analyzer is a parameter of the code. To evaluate the code at a concrete input a
  concrete analyzer is needed: \<open>demo_reading\<close> has a dictionary of one entry, the
  character U+732B (cat) read U+306D U+3053, and annotates every occurrence of it, in
  bracket form or in ruby form; it never fails. \<open>down_reading\<close> is the analyzer whose
  process cannot be started: every call raises \<open>TokenizerUnavailable\<close>.
\<close>

definition demo_reading :: "pystr \<Rightarrow> bool \<Rightarrow> bool \<Rightarrow> error + pystr" where
  "demo_reading text ignore_numbers use_ruby_tags =
     Inr (concat (map (\<lambda>c.
       if c = 29483 then
         (if use_ruby_tags
          then u ''<ruby>'' @ [29483] @ u ''<rt>'' @ [12397, 12371] @ u ''</rt></ruby>''
          else [29483] @ u ''['' @ [12397, 12371] @ u '']'')
       else [c]) text))"

definition down_reading :: "pystr \<Rightarrow> bool \<Rightarrow> bool \<Rightarrow> error + pystr" where
  "down_reading text ignore_numbers use_ruby_tags = Inl TokenizerUnavailable"

definition demo_deps :: deps where
  "demo_deps = \<lparr>utils_removeFurigana = removeFurigana, mecab_reading = demo_reading\<rparr>"

definition down_deps :: deps where
  "down_deps = \<lparr>utils_removeFurigana = removeFurigana, mecab_reading = down_reading\<rparr>"

section \<open>Notes, field pairs and the collection\<close>

text \<open>
  A note is its id and its fields, in the order of the note type, each a name and a
  text. \<open>name in note\<close> and \<open>note[name]\<close> are the lookup \<open>note_get\<close>: \<open>None\<close> when the
  note has no such field (also for the name \<open>None\<close>, which \<open>pair.get\<close> returns for an
  absent key). \<open>note[name] = text\<close> is \<open>note_set\<close>; the code only assigns fields that
  exist.
\<close>

type_synonym fields = "(pystr \<times> pystr) list"

record py_note =
  note_id :: nat
  note_fields :: fields

definition note_get :: "py_note \<Rightarrow> pystr option \<Rightarrow> pystr option" where
  "note_get n key = (case key of None \<Rightarrow> None | Some name \<Rightarrow> map_of (note_fields n) name)"

definition note_set :: "py_note \<Rightarrow> pystr \<Rightarrow> pystr \<Rightarrow> py_note" where
  "note_set n name text = n\<lparr>note_fields := AList.update name text (note_fields n)\<rparr>"

text \<open>
  A field pair and a rule are dictionaries of the configuration, read with \<open>.get\<close>:
  an absent key reads as \<open>None\<close>, an absent \<open>fieldPairs\<close> as the empty list.
\<close>

record field_pair =
  source :: "pystr option"
  destination :: "pystr option"

record rule =
  deckName :: "pystr option"
  fieldPairs :: "field_pair list"

text \<open>
  What the code calls on the collection and on its other collaborators is recorded, in
  order, in a log. A call of the progress callback is recorded with its two arguments,
  with the clock reading of the test that let it through, and with the reading stored
  in \<open>last_progress_update\<close> right after it.
\<close>

datatype col_event =
    AddCustomUndoEntry pystr
  | UpdateNote py_note
  | MergeUndoEntries nat
  | Flush py_note

record progress_call =
  n_done :: nat
  n_total :: nat
  checked_at :: real
  stored_at :: real

text \<open>
  The state of the world: the notes stored in the collection by id, the log of calls
  that change the collection, the number of clock readings taken so far, and the calls of
  the progress callback.
\<close>

record world =
  col_notes :: "(nat \<times> fields) list"
  col_log :: "col_event list"
  ticks :: nat
  progress_log :: "progress_call list"

text \<open>
  The parts of the collection the code only reads: the search \<open>find_notes\<close>, the deck
  ids of a note's cards (\<open>note.cards()\<close>) and the name of a deck, \<open>None\<close> when
  \<open>col.decks.get\<close> finds none.
\<close>

record col_env =
  find_notes :: "pystr \<Rightarrow> nat list"
  note_cards :: "nat \<Rightarrow> nat list"
  decks_get :: "nat \<Rightarrow> pystr option"

definition get_note :: "world \<Rightarrow> nat \<Rightarrow> error + py_note" where
  "get_note w nid =
     (case map_of (col_notes w) nid of
        None \<Rightarrow> Inl NotFoundError
      | Some fs \<Rightarrow> Inr \<lparr>note_id = nid, note_fields = fs\<rparr>)"

definition store_note :: "py_note \<Rightarrow> world \<Rightarrow> world" where
  "store_note n w = w\<lparr>col_notes := AList.update (note_id n) (note_fields n) (col_notes w)\<rparr>"

definition log_event :: "col_event \<Rightarrow> world \<Rightarrow> world" where
  "log_event ev w = w\<lparr>col_log := col_log w @ [ev]\<rparr>"

definition update_note :: "py_note \<Rightarrow> world \<Rightarrow> world" where
  "update_note n w = log_event (UpdateNote n) (store_note n w)"

definition flush :: "py_note \<Rightarrow> world \<Rightarrow> world" where
  "flush n w = log_event (Flush n) (store_note n w)"

text \<open>
  \<open>time.time()\<close>: the clock is a sequence of readings given from outside; a call takes
  the next one. Readings and their differences are real numbers.
\<close>

definition time_time :: "(nat \<Rightarrow> real) \<Rightarrow> world \<Rightarrow> real \<times> world" where
  "time_time clock w = (clock (ticks w), w\<lparr>ticks := Suc (ticks w)\<rparr>)"

section \<open>\<open>bulkGenerate\<close> of \<open>bulk.py\<close>\<close>

text \<open>The body of the loop over the field pairs, on the note and the flag \<open>is_modified\<close>.\<close>

definition bulk_pair ::
  "deps \<Rightarrow> bool \<Rightarrow> bool \<Rightarrow> field_pair \<Rightarrow> py_note \<times> bool \<Rightarrow> error + py_note \<times> bool" where
  "bulk_pair D ignore_numbers use_ruby_tags pair st =
     (case st of (note, is_modified) \<Rightarrow>
        (case (source pair, destination pair) of
           (Some source_field, Some dest_field) \<Rightarrow>
             if falsy source_field \<or> falsy dest_field then Inr st
             else
               (case (note_get note (Some source_field), note_get note (Some dest_field)) of
                  (Some source_text, Some dest_text) \<Rightarrow>
                    if falsy source_text then Inr st
                    else
                      (case generateFurigana D source_text ignore_numbers use_ruby_tags of
                         Inl e \<Rightarrow> Inl e
                       | Inr generated_text \<Rightarrow>
                           if dest_text \<noteq> generated_text
                           then Inr (note_set note dest_field generated_text, True)
                           else Inr st)
                | _ \<Rightarrow> Inr st)
         | _ \<Rightarrow> Inr st))"

fun bulk_pairs ::
  "deps \<Rightarrow> bool \<Rightarrow> bool \<Rightarrow> field_pair list \<Rightarrow> py_note \<times> bool \<Rightarrow> error + py_note \<times> bool" where
  "bulk_pairs D ignore_numbers use_ruby_tags [] st = Inr st"
| "bulk_pairs D ignore_numbers use_ruby_tags (pair # pairs) st =
     (case bulk_pair D ignore_numbers use_ruby_tags pair st of
        Inl e \<Rightarrow> Inl e
      | Inr st' \<Rightarrow> bulk_pairs D ignore_numbers use_ruby_tags pairs st')"

text \<open>The variables of the loop over the notes.\<close>

record bulk_state =
  last_progress_update :: real
  notes_modified_count :: nat
  world :: world

text \<open>
  The end of an iteration: the progress callback is called when at least 0.1 seconds
  have passed on the clock since \<open>last_progress_update\<close>. \<open>progress\<close> says whether a
  callback was given.
\<close>

definition report_progress ::
  "(nat \<Rightarrow> real) \<Rightarrow> bool \<Rightarrow> nat \<Rightarrow> nat \<Rightarrow> bulk_state \<Rightarrow> bulk_state" where
  "report_progress clock progress i total_notes st =
     (case time_time clock (world st) of (t, w1) \<Rightarrow>
        if t - last_progress_update st \<ge> 1 / 10 then
          (case time_time clock w1 of (t', w2) \<Rightarrow>
             st\<lparr>last_progress_update := t',
                world := (if progress
                          then w2\<lparr>progress_log := progress_log w2 @
                                 [\<lparr>n_done = i + 1, n_total = total_notes,
                                   checked_at = t, stored_at = t'\<rparr>]\<rparr>
                          else w2)\<rparr>)
        else st\<lparr>world := w1\<rparr>)"

text \<open>
  One iteration of the loop over the notes. An exception leaves the loop; the state
  reached is returned with it.
\<close>

definition bulk_note ::
  "deps \<Rightarrow> (nat \<Rightarrow> real) \<Rightarrow> field_pair list \<Rightarrow> bool \<Rightarrow> bool \<Rightarrow> bool \<Rightarrow> nat \<Rightarrow> nat \<Rightarrow>
   nat \<Rightarrow> nat \<Rightarrow> bulk_state \<Rightarrow> error option \<times> bulk_state" where
  "bulk_note D clock field_pairs progress ignore_numbers use_ruby_tags undo_entry total_notes
     i noteId st =
     (case get_note (world st) noteId of
        Inl e \<Rightarrow> (Some e, st)
      | Inr note \<Rightarrow>
          (case bulk_pairs D ignore_numbers use_ruby_tags field_pairs (note, False) of
             Inl e \<Rightarrow> (Some e, st)
           | Inr (note', is_modified) \<Rightarrow>
               (None,
                report_progress clock progress i total_notes
                  (if is_modified
                   then st\<lparr>notes_modified_count := notes_modified_count st + 1,
                           world := log_event (MergeUndoEntries undo_entry)
                                      (update_note note' (world st))\<rparr>
                   else st))))"

fun bulk_loop ::
  "deps \<Rightarrow> (nat \<Rightarrow> real) \<Rightarrow> field_pair list \<Rightarrow> bool \<Rightarrow> bool \<Rightarrow> bool \<Rightarrow> nat \<Rightarrow> nat \<Rightarrow>
   nat \<Rightarrow> nat list \<Rightarrow> bulk_state \<Rightarrow> error option \<times> bulk_state" where
  "bulk_loop D clock field_pairs progress ignore_numbers use_ruby_tags undo_entry total_notes
     i [] st = (None, st)"
| "bulk_loop D clock field_pairs progress ignore_numbers use_ruby_tags undo_entry total_notes
     i (noteId # noteIds) st =
     (case bulk_note D clock field_pairs progress ignore_numbers use_ruby_tags undo_entry
             total_notes i noteId st of
        (Some e, st') \<Rightarrow> (Some e, st')
      | (None, st') \<Rightarrow>
          bulk_loop D clock field_pairs progress ignore_numbers use_ruby_tags undo_entry
            total_notes (i + 1) noteIds st')"

text \<open>
  \<open>bulkGenerate\<close>: the result is the number of notes modified, or the exception, with the
  world as the call leaves it. The undo entry's id is the position of its record in the
  log.
\<close>

definition bulkGenerate ::
  "deps \<Rightarrow> (nat \<Rightarrow> real) \<Rightarrow> world \<Rightarrow> nat list \<Rightarrow> field_pair list \<Rightarrow> bool \<Rightarrow> bool \<Rightarrow> bool \<Rightarrow>
   (error + nat) \<times> world" where
  "bulkGenerate D clock collection noteIds field_pairs progress ignore_numbers use_ruby_tags =
     (let undo_entry = length (col_log collection);
          w0 = log_event (AddCustomUndoEntry (u ''Batch Generate Furigana'')) collection;
          total_notes = length noteIds
      in case bulk_loop D clock field_pairs progress ignore_numbers use_ruby_tags undo_entry
                total_notes 0 noteIds
                \<lparr>last_progress_update = 0, notes_modified_count = 0, world = w0\<rparr> of
           (Some e, st) \<Rightarrow> (Inl e, world st)
         | (None, st) \<Rightarrow> (Inr (notes_modified_count st), world st))"

section \<open>The scan of \<open>__init__.py\<close>\<close>

text \<open>
  The condition of lines 66 and 118: the destination is effectively empty or holds the
  same text as the source.
\<close>

definition needs_generation :: "pystr \<Rightarrow> pystr \<Rightarrow> bool" where
  "needs_generation source_text destination_text =
     (is_field_effectively_empty destination_text \<or> source_text = destination_text)"

text \<open>
  \<open>find_notes_to_process\<close>. \<open>pair_selects\<close> is the test of one field pair on a note;
  the loop over the pairs stops at the first pair that passes it, with the note added.
\<close>

definition pair_selects :: "py_note \<Rightarrow> field_pair \<Rightarrow> bool" where
  "pair_selects note pair =
     (case (note_get note (source pair), note_get note (destination pair)) of
        (Some source_text, Some destination_text) \<Rightarrow>
          \<not> falsy source_text \<and> needs_generation source_text destination_text
      | _ \<Rightarrow> False)"

fun scan_pairs :: "py_note \<Rightarrow> field_pair list \<Rightarrow> bool" where
  "scan_pairs note [] = False"
| "scan_pairs note (pair # pairs) =
     (if pair_selects note pair then True else scan_pairs note pairs)"

fun scan_nids :: "world \<Rightarrow> field_pair list \<Rightarrow> nat list \<Rightarrow> nat set \<Rightarrow> error + nat set" where
  "scan_nids w pairs [] notes_to_process_ids = Inr notes_to_process_ids"
| "scan_nids w pairs (nid # nids) notes_to_process_ids =
     (case get_note w nid of
        Inl e \<Rightarrow> Inl e
      | Inr note \<Rightarrow>
          scan_nids w pairs nids
            (if scan_pairs note pairs then insert (note_id note) notes_to_process_ids
             else notes_to_process_ids))"

text \<open>The query \<open>f'deck:"{rule_deck_name}"'\<close>; 34 is the code point of the double quote.\<close>

definition deck_query :: "pystr \<Rightarrow> pystr" where
  "deck_query rule_deck_name = u ''deck:'' @ [34] @ rule_deck_name @ [34]"

fun scan_rules :: "col_env \<Rightarrow> world \<Rightarrow> rule list \<Rightarrow> nat set \<Rightarrow> error + nat set" where
  "scan_rules E w [] notes_to_process_ids = Inr notes_to_process_ids"
| "scan_rules E w (rule # rules) notes_to_process_ids =
     (case deckName rule of
        None \<Rightarrow> scan_rules E w rules notes_to_process_ids
      | Some rule_deck_name \<Rightarrow>
          if falsy rule_deck_name then scan_rules E w rules notes_to_process_ids
          else
            (case scan_nids w (fieldPairs rule) (find_notes E (deck_query rule_deck_name))
                    notes_to_process_ids of
               Inl e \<Rightarrow> Inl e
             | Inr ids \<Rightarrow> scan_rules E w rules ids))"

text \<open>
  The result is \<open>list(notes_to_process_ids)\<close>, a list of the set in no specified order;
  the model returns the set.
\<close>

definition find_notes_to_process :: "col_env \<Rightarrow> world \<Rightarrow> rule list \<Rightarrow> error + nat set" where
  "find_notes_to_process E w rules = scan_rules E w rules {}"

text \<open>
  \<open>do_update\<close>, the update step of the scan. The deck of a note is the deck of its
  first card. \<open>deck_name.startswith(rule_deck_name + '::')\<close> is evaluated only when the
  names differ, and raises \<open>TypeError\<close> when the rule has no \<open>deckName\<close>.
\<close>

definition deck_applies :: "pystr \<Rightarrow> pystr option \<Rightarrow> error + bool" where
  "deck_applies deck_name rule_deck_name =
     (case rule_deck_name of
        None \<Rightarrow> Inl TypeError
      | Some d \<Rightarrow> Inr (deck_name = d \<or> prefix (d @ u ''::'') deck_name))"

definition update_pair ::
  "deps \<Rightarrow> bool \<Rightarrow> bool \<Rightarrow> field_pair \<Rightarrow> py_note \<times> bool \<Rightarrow> error + py_note \<times> bool" where
  "update_pair D ignore_numbers use_ruby_tags pair st =
     (case st of (note, note_was_modified) \<Rightarrow>
        (case (source pair, destination pair) of
           (Some src_field, Some dest_field) \<Rightarrow>
             (case (note_get note (Some src_field), note_get note (Some dest_field)) of
                (Some source_text, Some destination_text) \<Rightarrow>
                  if falsy source_text then Inr st
                  else if needs_generation source_text destination_text then
                    (case generateFurigana D source_text ignore_numbers use_ruby_tags of
                       Inl e \<Rightarrow> Inl e
                     | Inr generated_text \<Rightarrow>
                         if generated_text \<noteq> destination_text
                         then Inr (note_set note dest_field generated_text, True)
                         else Inr st)
                  else Inr st
              | _ \<Rightarrow> Inr st)
         | _ \<Rightarrow> Inr st))"

fun update_pairs ::
  "deps \<Rightarrow> bool \<Rightarrow> bool \<Rightarrow> field_pair list \<Rightarrow> py_note \<times> bool \<Rightarrow> error + py_note \<times> bool" where
  "update_pairs D ignore_numbers use_ruby_tags [] st = Inr st"
| "update_pairs D ignore_numbers use_ruby_tags (pair # pairs) st =
     (case update_pair D ignore_numbers use_ruby_tags pair st of
        Inl e \<Rightarrow> Inl e
      | Inr st' \<Rightarrow> update_pairs D ignore_numbers use_ruby_tags pairs st')"

definition update_rule ::
  "deps \<Rightarrow> col_env \<Rightarrow> bool \<Rightarrow> bool \<Rightarrow> rule \<Rightarrow> py_note \<times> bool \<Rightarrow> error + py_note \<times> bool" where
  "update_rule D E ignore_numbers use_ruby_tags rule st =
     (case note_cards E (note_id (fst st)) of
        [] \<Rightarrow> Inr st
      | did # _ \<Rightarrow>
          (case decks_get E did of
             None \<Rightarrow> Inr st
           | Some deck_name \<Rightarrow>
               (case deck_applies deck_name (deckName rule) of
                  Inl e \<Rightarrow> Inl e
                | Inr True \<Rightarrow> update_pairs D ignore_numbers use_ruby_tags (fieldPairs rule) st
                | Inr False \<Rightarrow> Inr st)))"

fun update_rules ::
  "deps \<Rightarrow> col_env \<Rightarrow> bool \<Rightarrow> bool \<Rightarrow> rule list \<Rightarrow> py_note \<times> bool \<Rightarrow> error + py_note \<times> bool" where
  "update_rules D E ignore_numbers use_ruby_tags [] st = Inr st"
| "update_rules D E ignore_numbers use_ruby_tags (rule # rules) st =
     (case update_rule D E ignore_numbers use_ruby_tags rule st of
        Inl e \<Rightarrow> Inl e
      | Inr st' \<Rightarrow> update_rules D E ignore_numbers use_ruby_tags rules st')"

text \<open>
  One iteration of the loop over the note ids, on \<open>notes_modified_count\<close> (here
  \<open>count\<close>) and the world.
\<close>

definition update_nid ::
  "deps \<Rightarrow> col_env \<Rightarrow> bool \<Rightarrow> bool \<Rightarrow> rule list \<Rightarrow> nat \<Rightarrow> nat \<times> world \<Rightarrow>
   error option \<times> nat \<times> world" where
  "update_nid D E ignore_numbers use_ruby_tags rules nid st =
     (case st of (count, w) \<Rightarrow>
        (case get_note w nid of
           Inl e \<Rightarrow> (Some e, st)
         | Inr note \<Rightarrow>
             (case update_rules D E ignore_numbers use_ruby_tags rules (note, False) of
                Inl e \<Rightarrow> (Some e, st)
              | Inr (note', note_was_modified) \<Rightarrow>
                  if note_was_modified
                  then (None, count + 1, flush note' w)
                  else (None, st))))"

fun update_loop ::
  "deps \<Rightarrow> col_env \<Rightarrow> bool \<Rightarrow> bool \<Rightarrow> rule list \<Rightarrow> nat list \<Rightarrow> nat \<times> world \<Rightarrow>
   error option \<times> nat \<times> world" where
  "update_loop D E ignore_numbers use_ruby_tags rules [] st = (None, st)"
| "update_loop D E ignore_numbers use_ruby_tags rules (nid # nids) st =
     (case update_nid D E ignore_numbers use_ruby_tags rules nid st of
        (Some e, st') \<Rightarrow> (Some e, st')
      | (None, st') \<Rightarrow> update_loop D E ignore_numbers use_ruby_tags rules nids st')"

text \<open>
  \<open>do_update\<close>: \<open>config.getIgnoreNumbers()\<close> and \<open>config.getUseRubyTags()\<close> are the two
  flags of the configuration.
\<close>

definition do_update ::
  "deps \<Rightarrow> col_env \<Rightarrow> bool \<Rightarrow> bool \<Rightarrow> rule list \<Rightarrow> world \<Rightarrow> nat list \<Rightarrow>
   (error + nat) \<times> world" where
  "do_update D E ignore_numbers use_ruby_tags rules col nids =
     (case update_loop D E ignore_numbers use_ruby_tags rules nids (0, col) of
        (Some e, (n, w)) \<Rightarrow> (Inl e, w)
      | (None, (n, w)) \<Rightarrow> (Inr n, w))"

section \<open>Notions used to state the properties\<close>

text \<open>
  The destination fields of a list of field pairs, and of a list of rules.
\<close>

definition dest_names :: "field_pair list \<Rightarrow> pystr set" where
  "dest_names pairs = {d. \<exists>pair \<in> set pairs. destination pair = Some d}"

definition rule_dest_names :: "rule list \<Rightarrow> pystr set" where
  "rule_dest_names rules = (\<Union>rule \<in> set rules. dest_names (fieldPairs rule))"

text \<open>
  \<open>frame_ok dests fs fs'\<close>: the fields \<open>fs'\<close> of a note have the names of \<open>fs\<close>, in the
  same order, and the same text in every field whose name is not in \<open>dests\<close>.
  \<open>store_frame dests ns ns'\<close>: the stored notes \<open>ns'\<close> have the ids of \<open>ns\<close>, and every
  note relates to its former self by \<open>frame_ok\<close>.
\<close>

definition frame_ok :: "pystr set \<Rightarrow> fields \<Rightarrow> fields \<Rightarrow> bool" where
  "frame_ok dests fs fs' =
     (map fst fs' = map fst fs \<and> (\<forall>f. f \<notin> dests \<longrightarrow> map_of fs' f = map_of fs f))"

definition store_frame :: "pystr set \<Rightarrow> (nat \<times> fields) list \<Rightarrow> (nat \<times> fields) list \<Rightarrow> bool" where
  "store_frame dests ns ns' =
     (map fst ns' = map fst ns \<and>
      (\<forall>k fs fs'. map_of ns k = Some fs \<longrightarrow> map_of ns' k = Some fs' \<longrightarrow> frame_ok dests fs fs'))"

text \<open>
  A field pair is a no-op for a note in \<open>bulkGenerate\<close> when the name of its source or
  of its destination field is missing or empty, when the note lacks one of the two
  fields, when the source text is empty, or when the generated text equals the text the
  destination holds.
\<close>

definition noop_pair :: "deps \<Rightarrow> bool \<Rightarrow> bool \<Rightarrow> py_note \<Rightarrow> field_pair \<Rightarrow> bool" where
  "noop_pair D ignore_numbers use_ruby_tags note pair =
     (case (source pair, destination pair) of
        (Some source_field, Some dest_field) \<Rightarrow>
          source_field = [] \<or> dest_field = [] \<or>
          (case (note_get note (Some source_field), note_get note (Some dest_field)) of
             (Some source_text, Some dest_text) \<Rightarrow>
               source_text = [] \<or>
               generateFurigana D source_text ignore_numbers use_ruby_tags = Inr dest_text
           | _ \<Rightarrow> True)
      | _ \<Rightarrow> True)"

text \<open>
  The same for the update step of the scan, which also leaves the destination alone
  when it is neither effectively empty nor equal to the source.
\<close>

definition noop_update_pair :: "deps \<Rightarrow> bool \<Rightarrow> bool \<Rightarrow> py_note \<Rightarrow> field_pair \<Rightarrow> bool" where
  "noop_update_pair D ignore_numbers use_ruby_tags note pair =
     (case (note_get note (source pair), note_get note (destination pair)) of
        (Some source_text, Some destination_text) \<Rightarrow>
          source_text = [] \<or>
          generateFurigana D source_text ignore_numbers use_ruby_tags = Inr destination_text \<or>
          \<not> needs_generation source_text destination_text
      | _ \<Rightarrow> True)"

text \<open>
  What \<open>bulkGenerate\<close> is to do with one note, told from its fields. A field pair
  assigns a text to its destination field when both field names are given and not
  empty, both fields are on the note, the source text is not empty, and the text
  generated from the source differs from the text the destination holds;
  \<open>assigned_text\<close> is then the destination field and the generated text. The pairs are
  taken in order, each on the fields as the pairs before it left them. A note is modified
  when some pair assigns a text to a destination of the note as it was loaded.
\<close>

definition assigned_text ::
  "deps \<Rightarrow> bool \<Rightarrow> bool \<Rightarrow> fields \<Rightarrow> field_pair \<Rightarrow> (pystr \<times> pystr) option" where
  "assigned_text D ignore_numbers use_ruby_tags fs pair =
     (case (source pair, destination pair) of
        (Some source_field, Some dest_field) \<Rightarrow>
          if source_field = [] \<or> dest_field = [] then None
          else
            (case (map_of fs source_field, map_of fs dest_field) of
               (Some source_text, Some dest_text) \<Rightarrow>
                 if source_text = [] then None
                 else
                   (case generateFurigana D source_text ignore_numbers use_ruby_tags of
                      Inl e \<Rightarrow> None
                    | Inr generated_text \<Rightarrow>
                        if generated_text = dest_text then None
                        else Some (dest_field, generated_text))
             | _ \<Rightarrow> None)
      | _ \<Rightarrow> None)"

definition assign_step :: "deps \<Rightarrow> bool \<Rightarrow> bool \<Rightarrow> fields \<Rightarrow> field_pair \<Rightarrow> fields" where
  "assign_step D ignore_numbers use_ruby_tags fs pair =
     (case assigned_text D ignore_numbers use_ruby_tags fs pair of
        None \<Rightarrow> fs
      | Some (dest_field, generated_text) \<Rightarrow> AList.update dest_field generated_text fs)"

definition note_result :: "deps \<Rightarrow> bool \<Rightarrow> bool \<Rightarrow> field_pair list \<Rightarrow> fields \<Rightarrow> fields" where
  "note_result D ignore_numbers use_ruby_tags pairs fs =
     foldl (assign_step D ignore_numbers use_ruby_tags) fs pairs"

definition note_modified :: "deps \<Rightarrow> bool \<Rightarrow> bool \<Rightarrow> field_pair list \<Rightarrow> fields \<Rightarrow> bool" where
  "note_modified D ignore_numbers use_ruby_tags pairs fs =
     (\<exists>pair \<in> set pairs. assigned_text D ignore_numbers use_ruby_tags fs pair \<noteq> None)"

text \<open>
  What \<open>bulkGenerate\<close> is to return for a batch: from the count so far and the stored
  notes, every note that is modified counts once and is stored with its new fields;
  every other note leaves both as they are.
\<close>

fun batch_result ::
  "deps \<Rightarrow> bool \<Rightarrow> bool \<Rightarrow> field_pair list \<Rightarrow> nat list \<Rightarrow> nat \<times> (nat \<times> fields) list \<Rightarrow>
   nat \<times> (nat \<times> fields) list" where
  "batch_result D ignore_numbers use_ruby_tags pairs [] acc = acc"
| "batch_result D ignore_numbers use_ruby_tags pairs (nid # nids) (k, ns) =
     (case map_of ns nid of
        None \<Rightarrow> batch_result D ignore_numbers use_ruby_tags pairs nids (k, ns)
      | Some fs \<Rightarrow>
          if note_modified D ignore_numbers use_ruby_tags pairs fs
          then batch_result D ignore_numbers use_ruby_tags pairs nids
                 (k + 1, AList.update nid (note_result D ignore_numbers use_ruby_tags pairs fs) ns)
          else batch_result D ignore_numbers use_ruby_tags pairs nids (k, ns))"

text \<open>The number of \<open>update_note\<close> calls in a log.\<close>

definition is_update :: "col_event \<Rightarrow> bool" where
  "is_update ev = (case ev of UpdateNote n \<Rightarrow> True | _ \<Rightarrow> False)"

definition count_updates :: "col_event list \<Rightarrow> nat" where
  "count_updates evs = length (filter is_update evs)"

text \<open>
  The calls of the progress callback are spaced when, between the reading stored after
  one call and the reading that lets the next call through, the clock advanced by
  at least a tenth of a second. A call happens after the reading that lets it through
  and before the reading stored after it, so on a clock that never runs backwards two
  consecutive calls of a spaced log are at least 0.1 seconds apart.
\<close>

fun spaced :: "progress_call list \<Rightarrow> bool" where
  "spaced (a # b # cs) = (checked_at b - stored_at a \<ge> 1 / 10 \<and> spaced (b # cs))"
| "spaced _ = True"

text \<open>
  The calls of the progress callback told from the clock alone: \<open>m\<close> notes remain, the
  next note has index \<open>i\<close>, \<open>tick\<close> is the number of the next clock reading and
  \<open>last_update\<close> the reading stored after the latest call (0 before the first). After
  each note the clock is read; when at least 0.1 seconds have passed since
  \<open>last_update\<close> the callback is called with the number of notes processed so far and
  the size of the batch, and the clock is read again.
\<close>

fun progress_calls :: "(nat \<Rightarrow> real) \<Rightarrow> nat \<Rightarrow> nat \<Rightarrow> nat \<Rightarrow> nat \<Rightarrow> real \<Rightarrow> progress_call list" where
  "progress_calls clock total_notes i 0 tick last_update = []"
| "progress_calls clock total_notes i (Suc m) tick last_update =
     (if clock tick - last_update \<ge> 1 / 10
      then \<lparr>n_done = i + 1, n_total = total_notes, checked_at = clock tick,
            stored_at = clock (tick + 1)\<rparr>
           # progress_calls clock total_notes (i + 1) m (tick + 2) (clock (tick + 1))
      else progress_calls clock total_notes (i + 1) m (tick + 1) last_update)"

definition call_args :: "progress_call \<Rightarrow> nat \<times> nat" where
  "call_args c = (n_done c, n_total c)"

text \<open>
  The invariant of the loop of \<open>bulkGenerate\<close> when a callback is given: the log is
  spaced and \<open>last_progress_update\<close> is the reading stored after the latest call.
\<close>

definition progress_inv :: "bulk_state \<Rightarrow> bool" where
  "progress_inv st =
     (spaced (progress_log (world st)) \<and>
      (progress_log (world st) = [] \<or>
       stored_at (last (progress_log (world st))) = last_progress_update st))"

text \<open>
  A rule selects a note in \<open>find_notes_to_process\<close> when it has a non-empty deck name,
  its deck query returns the note, and one of its field pairs passes \<open>pair_selects\<close> on
  the note.
\<close>

definition rule_selects :: "col_env \<Rightarrow> world \<Rightarrow> rule \<Rightarrow> nat \<Rightarrow> bool" where
  "rule_selects E w rule nid =
     (case deckName rule of
        None \<Rightarrow> False
      | Some rule_deck_name \<Rightarrow>
          rule_deck_name \<noteq> [] \<and>
          nid \<in> set (find_notes E (deck_query rule_deck_name)) \<and>
          (case get_note w nid of
             Inl e \<Rightarrow> False
           | Inr note \<Rightarrow> \<exists>pair \<in> set (fieldPairs rule). pair_selects note pair))"

section \<open>Collections for concrete evaluation\<close>

text \<open>
  A deck \<open>Japanese\<close> (id 10) whose search returns note 1; the note has a word (the
  character U+732B) with a reading typed by hand, and a sentence without a reading.
  The rule of the deck has two field pairs.
\<close>

definition scan_env :: col_env where
  "scan_env =
     \<lparr>find_notes = (\<lambda>query. if query = deck_query (u ''Japanese'') then [1] else []),
      note_cards = (\<lambda>nid. [10]),
      decks_get = (\<lambda>did. if did = 10 then Some (u ''Japanese'') else None)\<rparr>"

definition scan_world :: world where
  "scan_world =
     \<lparr>col_notes = [(1, [(u ''Expression'', [29483]), (u ''Reading'', u ''neko''),
                         (u ''Sentence'', [29483, 12364, 22909, 12365]),
                         (u ''SentenceReading'', [])])],
      col_log = [], ticks = 0, progress_log = []\<rparr>"

definition scan_rule :: rule where
  "scan_rule =
     \<lparr>deckName = Some (u ''Japanese''),
      fieldPairs =
        [\<lparr>source = Some (u ''Expression''), destination = Some (u ''Reading'')\<rparr>,
         \<lparr>source = Some (u ''Sentence''), destination = Some (u ''SentenceReading'')\<rparr>]\<rparr>"

text \<open>
  Three notes: note 1 has a word and an empty reading, note 2 has a reading that is
  already what the analyzer generates, note 3 has neither field. \<open>ex_pair\<close> generates
  \<open>Reading\<close> from \<open>Expression\<close>; \<open>same_pair\<close> names \<open>Expression\<close> as source and as
  destination. The clock starts at 1000 seconds and advances 0.06 seconds per reading.
\<close>

definition ex_world :: world where
  "ex_world =
     \<lparr>col_notes = [(1, [(u ''Expression'', [29483]), (u ''Reading'', [])]),
                   (2, [(u ''Expression'', u ''abc''), (u ''Reading'', u ''abc'')]),
                   (3, [(u ''Front'', [29483])])],
      col_log = [], ticks = 0, progress_log = []\<rparr>"

definition ex_pair :: field_pair where
  "ex_pair = \<lparr>source = Some (u ''Expression''), destination = Some (u ''Reading'')\<rparr>"

definition same_pair :: field_pair where
  "same_pair = \<lparr>source = Some (u ''Expression''), destination = Some (u ''Expression'')\<rparr>"

definition ex_clock :: "nat \<Rightarrow> real" where
  "ex_clock k = 1000 + real k * 6 / 100"

text \<open>The rules of the deck \<open>Japanese\<close> with the one or the other field pair.\<close>

definition same_rule :: rule where
  "same_rule = \<lparr>deckName = Some (u ''Japanese''), fieldPairs = [same_pair]\<rparr>"

definition ex_rule :: rule where
  "ex_rule = \<lparr>deckName = Some (u ''Japanese''), fieldPairs = [ex_pair]\<rparr>"

section \<open>Properties of the engine\<close>

subsection \<open>Auxiliary facts\<close>

text \<open>
  The pattern \<open><[^<]+?>\<close>, declaratively: a match is \<open><\<close>, one character other than
  \<open><\<close>, then characters other than \<open><\<close> and \<open>>\<close>, then \<open>>\<close>. The functions
  \<open>tag_end\<close> and \<open>match_tag\<close> find exactly these matches, and a text without \<open><\<close> is
  left as it is.
\<close>

lemma tag_end_iff:
  "tag_end cs = Some r \<longleftrightarrow>
   (\<exists>body. cs = body @ 62 # r \<and> 60 \<notin> set body \<and> 62 \<notin> set body)"
proof (induction cs)
  case Nil
  then show ?case by simp
next
  case (Cons c cs)
  show ?case
  proof (cases "c = 62")
    case True
    have "(\<exists>body. c # cs = body @ 62 # r \<and> 60 \<notin> set body \<and> 62 \<notin> set body) \<longleftrightarrow> cs = r"
    proof
      assume "\<exists>body. c # cs = body @ 62 # r \<and> 60 \<notin> set body \<and> 62 \<notin> set body"
      then obtain body where b: "c # cs = body @ 62 # r" "62 \<notin> set body" by blast
      with True show "cs = r" by (cases body) auto
    next
      assume "cs = r"
      with True have "c # cs = [] @ 62 # r" by simp
      then show "\<exists>body. c # cs = body @ 62 # r \<and> 60 \<notin> set body \<and> 62 \<notin> set body"
        by (intro exI [of _ "[]"]) simp
    qed
    with True show ?thesis by simp
  next
    case False
    show ?thesis
    proof (cases "c = 60")
      case True
      have "\<not> (\<exists>body. c # cs = body @ 62 # r \<and> 60 \<notin> set body \<and> 62 \<notin> set body)"
      proof
        assume "\<exists>body. c # cs = body @ 62 # r \<and> 60 \<notin> set body \<and> 62 \<notin> set body"
        then obtain body where b: "c # cs = body @ 62 # r" "60 \<notin> set body" by blast
        with True show False by (cases body) auto
      qed
      with True show ?thesis by simp
    next
      case c60: False
      have "(\<exists>body. c # cs = body @ 62 # r \<and> 60 \<notin> set body \<and> 62 \<notin> set body) \<longleftrightarrow>
            (\<exists>body. cs = body @ 62 # r \<and> 60 \<notin> set body \<and> 62 \<notin> set body)"
      proof
        assume "\<exists>body. c # cs = body @ 62 # r \<and> 60 \<notin> set body \<and> 62 \<notin> set body"
        then obtain body where b: "c # cs = body @ 62 # r" "60 \<notin> set body" "62 \<notin> set body"
          by blast
        with False obtain body' where "body = c # body'" by (cases body) auto
        with b show "\<exists>body. cs = body @ 62 # r \<and> 60 \<notin> set body \<and> 62 \<notin> set body"
          by auto
      next
        assume "\<exists>body. cs = body @ 62 # r \<and> 60 \<notin> set body \<and> 62 \<notin> set body"
        then obtain body where "cs = body @ 62 # r" "60 \<notin> set body" "62 \<notin> set body" by blast
        with False c60 have "c # cs = (c # body) @ 62 # r \<and> 60 \<notin> set (c # body) \<and>
            62 \<notin> set (c # body)" by simp
        then show "\<exists>body. c # cs = body @ 62 # r \<and> 60 \<notin> set body \<and> 62 \<notin> set body"
          by blast
      qed
      with False c60 Cons.IH show ?thesis by simp
    qed
  qed
qed

lemma match_tag_iff:
  "match_tag s = Some r \<longleftrightarrow>
   (\<exists>b body. s = 60 # b # body @ 62 # r \<and> b \<noteq> 60 \<and> 60 \<notin> set body \<and> 62 \<notin> set body)"
proof (cases s)
  case Nil
  then show ?thesis by simp
next
  case (Cons a t)
  show ?thesis
  proof (cases t)
    case Nil
    with Cons show ?thesis by simp
  next
    case (Cons b cs)
    with \<open>s = a # t\<close> show ?thesis by (auto simp: tag_end_iff)
  qed
qed

lemma sub_tags_plain: "60 \<notin> set s \<Longrightarrow> sub_tags s = s"
  by (induction s) (auto split: option.splits simp: match_tag_iff)

text \<open>\<open>s.strip()\<close> is the empty string exactly when \<open>s\<close> is whitespace only.\<close>

lemma dropWhile_all_Nil: "(\<forall>c \<in> set (dropWhile P s). P c) \<longleftrightarrow> (\<forall>c \<in> set s. P c)"
  by (induction s) auto

lemma py_strip_Nil_iff: "py_strip s = [] \<longleftrightarrow> list_all isspace s"
  unfolding py_strip_def list_all_iff
  by (simp only: rev_is_Nil_conv dropWhile_eq_Nil_conv set_rev dropWhile_all_Nil)

lemmas rf_ev = strip_pass_def match_ruby_def match_bracket_def strip_prefix_def skip_rp_def match_rp_def
  plain_char_def reading_char_def base_char_def isspace_def u_def

text \<open>
  A pass leaves a text as it is exactly when the text contains no annotation, and then
  so does \<open>removeFurigana\<close>; the result of \<open>removeFurigana\<close> is such a text.
\<close>

lemma strip_from_fixed_iff: "strip_from b s = s \<longleftrightarrow> \<not> annotated_from b s"
proof (induction b s rule: strip_from.induct)
  case (1 b)
  then show ?case by simp
next
  case (2 b c cs)
  show ?case
  proof (cases "match_ruby (c # cs)")
    case (Some br)
    obtain base r where br: "br = (base, r)" by (cases br)
    have "length (strip_from b (c # cs)) < length (c # cs)"
      using Some br match_ruby_shorter [of "c # cs" base r] strip_from_length [of False r]
      by simp
    then have "strip_from b (c # cs) \<noteq> c # cs" by (auto simp del: strip_from.simps)
    with Some show ?thesis by simp
  next
    case None
    show ?thesis
    proof (cases "if b then match_bracket (c # cs) else None")
      case (Some r)
      have "length (strip_from b (c # cs)) < length (c # cs)"
        using None Some match_bracket_length [of "c # cs" r] strip_from_length [of False r]
        by (auto split: if_splits)
      then have "strip_from b (c # cs) \<noteq> c # cs" by (auto simp del: strip_from.simps)
      with None Some show ?thesis by (auto split: if_splits)
    next
      case N: None
      with None "2.IH"(1) [OF None N] show ?thesis by (auto split: if_splits)
    qed
  qed
qed

lemma removeFurigana_fixed: "strip_pass (removeFurigana x) = removeFurigana x"
  by (induction x rule: removeFurigana.induct) (subst (1 2) removeFurigana.simps, simp)

lemma removeFurigana_unchanged: "strip_pass x = x \<Longrightarrow> removeFurigana x = x"
  by (subst removeFurigana.simps) simp

lemma removeFurigana_step: "removeFurigana (strip_pass x) = removeFurigana x"
  by (subst (2) removeFurigana.simps) (simp add: removeFurigana_unchanged)

lemma removeFurigana_eval: "strip_pass x = y \<Longrightarrow> removeFurigana y = z \<Longrightarrow> removeFurigana x = z"
  using removeFurigana_step [of x] by simp

text \<open>
  An annotation needs a \<open>[\<close> (code point 91) or the tag \<open><ruby>\<close> somewhere in the text.
\<close>

lemma match_ruby_prefix: "match_ruby s = Some br \<Longrightarrow> prefix (u ''<ruby>'') s"
  by (auto simp: match_ruby_def strip_prefix_def split: option.splits if_splits)

lemma match_bracket_hd: "match_bracket (c # cs) = Some r \<Longrightarrow> c = 91"
  by (auto simp: match_bracket_def strip_prefix_def u_def split: option.splits if_splits)

lemma annotated_from_marks:
  "annotated_from b s \<Longrightarrow> 91 \<in> set s \<or> sublist (u ''<ruby>'') s"
proof (induction s arbitrary: b)
  case Nil
  then show ?case by simp
next
  case (Cons c cs)
  from Cons.prems consider "match_ruby (c # cs) \<noteq> None" | "match_bracket (c # cs) \<noteq> None"
    | "annotated_from (base_char c) cs" by auto
  then show ?case
  proof cases
    case 1
    then show ?thesis by (auto dest: match_ruby_prefix simp: sublist_Cons_right)
  next
    case 2
    then show ?thesis by (auto dest: match_bracket_hd)
  next
    case 3
    from Cons.IH [OF this] show ?thesis by (auto simp: sublist_Cons_right)
  qed
qed

text \<open>Evaluations of the modelled \<open>removeFurigana\<close>.\<close>

lemma removeFurigana_word: "removeFurigana [29483] = [29483]"
  by (rule removeFurigana_unchanged) (simp add: rf_ev)

lemma removeFurigana_abc: "removeFurigana [97, 98, 99] = [97, 98, 99]"
  by (rule removeFurigana_unchanged) (simp add: rf_ev)

lemma removeFurigana_cat: "removeFurigana [29483, 91, 12397, 12371, 93] = [29483]"
proof (rule removeFurigana_eval)
  show "strip_pass [29483, 91, 12397, 12371, 93] = [29483]" by (simp add: rf_ev)
  show "removeFurigana [29483] = [29483]" by (rule removeFurigana_word)
qed

text \<open>
  Examples 3 and 4 of the specification (section 8), written as code points, on the
  modelled \<open>removeFurigana\<close>: both annotations of the bracket text and the ruby
  element are removed, the base text stays.
\<close>

lemma not_annotated_example3:
  "\<not> annotated [26085, 26412, 35486, 12434, 21193, 24375, 12377, 12427]"
  by (simp add: annotated_def rf_ev)

lemma removeFurigana_example3:
  "removeFurigana [26085, 26412, 35486, 91, 12395, 12411, 12435, 12372, 93, 12434, 21193,
     24375, 91, 12409, 12435, 12365, 12423, 12358, 93, 12377, 12427]
   = [26085, 26412, 35486, 12434, 21193, 24375, 12377, 12427]"
proof (rule removeFurigana_eval)
  show "strip_pass [26085, 26412, 35486, 91, 12395, 12411, 12435, 12372, 93, 12434, 21193,
     24375, 91, 12409, 12435, 12365, 12423, 12358, 93, 12377, 12427]
   = [26085, 26412, 35486, 12434, 21193, 24375, 12377, 12427]"
    by (simp add: rf_ev)
  show "removeFurigana [26085, 26412, 35486, 12434, 21193, 24375, 12377, 12427]
   = [26085, 26412, 35486, 12434, 21193, 24375, 12377, 12427]"
    by (rule removeFurigana_unchanged) (simp add: rf_ev)
qed

lemma removeFurigana_example4:
  "removeFurigana [60, 114, 117, 98, 121, 62, 29483, 60, 114, 116, 62, 12397, 12371,
     60, 47, 114, 116, 62, 60, 47, 114, 117, 98, 121, 62, 12364, 22909, 12365]
   = [29483, 12364, 22909, 12365]"
proof (rule removeFurigana_eval)
  show "strip_pass [60, 114, 117, 98, 121, 62, 29483, 60, 114, 116, 62, 12397, 12371,
     60, 47, 114, 116, 62, 60, 47, 114, 117, 98, 121, 62, 12364, 22909, 12365]
   = [29483, 12364, 22909, 12365]"
    by (simp add: rf_ev)
  show "removeFurigana [29483, 12364, 22909, 12365] = [29483, 12364, 22909, 12365]"
    by (rule removeFurigana_unchanged) (simp add: rf_ev)
qed

text \<open>
  A text in which removing one annotation joins its surroundings into another: the
  second pass removes that one too.
\<close>

lemma removeFurigana_splice:
  "removeFurigana (u ''<ru<ruby>b<rt>r</rt></ruby>y>X<rt>s</rt></ruby>'') = u ''X''"
proof (rule removeFurigana_eval)
  show "strip_pass (u ''<ru<ruby>b<rt>r</rt></ruby>y>X<rt>s</rt></ruby>'')
      = u ''<ruby>X<rt>s</rt></ruby>''"
    by (simp add: rf_ev)
  show "removeFurigana (u ''<ruby>X<rt>s</rt></ruby>'') = u ''X''"
  proof (rule removeFurigana_eval)
    show "strip_pass (u ''<ruby>X<rt>s</rt></ruby>'') = u ''X''" by (simp add: rf_ev)
    show "removeFurigana (u ''X'') = u ''X''"
      by (rule removeFurigana_unchanged) (simp add: rf_ev)
  qed
qed

subsection \<open>Blank input\<close>

text \<open>
  C1. \<open>generateFurigana\<close> returns the empty string for the empty string, for three
  spaces, and for every whitespace-only string (every such string is
  \<open>filter isspace s\<close> for some \<open>s\<close>), whatever the two flags are. The analyzer \<open>D\<close> is
  arbitrary: the result does not depend on it, and it is the empty string even for an
  analyzer that raises on every call, so the analyzer is not consulted.
\<close>

theorem generateFurigana_blank:
  "generateFurigana D [] ignore_numbers use_ruby_tags = Inr [] \<and>
   generateFurigana D (u ''   '') ignore_numbers use_ruby_tags = Inr [] \<and>
   generateFurigana D (filter isspace s) ignore_numbers use_ruby_tags = Inr []"
proof -
  have "list_all isspace (filter isspace s)"
    by (simp add: list_all_iff)
  then have "py_strip (filter isspace s) = []"
    by (simp only: py_strip_Nil_iff)
  moreover have "py_strip (u ''   '') = []"
    by (simp add: py_strip_def isspace_def u_def)
  ultimately show ?thesis
    by (simp add: generateFurigana_def falsy_def)
qed

subsection \<open>Strip, then annotate\<close>

text \<open>
  C2. For every input that is not empty and not whitespace-only, \<open>generateFurigana\<close>
  returns exactly what the analyzer's \<open>reading\<close> returns on the input with its existing
  furigana removed, under the same two flags.
\<close>

theorem generateFurigana_strips_then_reads:
  "html \<noteq> [] \<Longrightarrow> \<not> list_all isspace html \<Longrightarrow>
   generateFurigana D html ignore_numbers use_ruby_tags =
     mecab_reading D (utils_removeFurigana D html) ignore_numbers use_ruby_tags"
  by (simp add: generateFurigana_def falsy_def py_strip_Nil_iff)

theorem generateFurigana_strips_then_reads_witness:
  "[29483, 91, 12397, 12371, 93] \<noteq> ([] :: pystr) \<and>
   \<not> list_all isspace [29483, 91, 12397, 12371, 93] \<and>
   generateFurigana demo_deps [29483, 91, 12397, 12371, 93] True False =
     mecab_reading demo_deps (utils_removeFurigana demo_deps [29483, 91, 12397, 12371, 93]) True False \<and>
   generateFurigana demo_deps [29483, 91, 12397, 12371, 93] True False =
     Inr [29483, 91, 12397, 12371, 93]"
proof -
  have h1: "[29483, 91, 12397, 12371, 93] \<noteq> ([] :: pystr)" by simp
  have h2: "\<not> list_all isspace [29483, 91, 12397, 12371, 93]"
    by (simp add: isspace_def)
  have "mecab_reading demo_deps (utils_removeFurigana demo_deps [29483, 91, 12397, 12371, 93]) True False =
      Inr [29483, 91, 12397, 12371, 93]"
    by (simp add: demo_deps_def demo_reading_def removeFurigana_cat u_def)
  with h1 h2 generateFurigana_strips_then_reads [OF h1 h2, of demo_deps True False]
  show ?thesis by simp
qed

subsection \<open>The web demo against the engine\<close>

text \<open>
  C3, as stated, fails: the endpoint \<open>/api/furigana\<close> passes the raw text to the analyzer.
  On a text that already carries an annotation the engine strips it first and the
  endpoint does not, and on three spaces the engine answers the empty string without
  a call while the endpoint calls the analyzer.
\<close>

theorem api_furigana_differs:
  "api_furigana demo_deps True
       \<lparr>req_text = Some [29483, 91, 12397, 12371, 93], req_useRubyTags = Some False\<rparr>
     = Inr [29483, 91, 12397, 12371, 93, 91, 12397, 12371, 93] \<and>
   generateFurigana demo_deps [29483, 91, 12397, 12371, 93] True False
     = Inr [29483, 91, 12397, 12371, 93] \<and>
   api_furigana demo_deps True \<lparr>req_text = Some (u ''   ''), req_useRubyTags = Some False\<rparr>
     = Inr (u ''   '') \<and>
   generateFurigana demo_deps (u ''   '') True False = Inr []"
proof -
  have "generateFurigana demo_deps [29483, 91, 12397, 12371, 93] True False
     = Inr [29483, 91, 12397, 12371, 93]"
    by (simp add: generateFurigana_def falsy_def py_strip_def isspace_def demo_deps_def
        removeFurigana_cat demo_reading_def u_def)
  moreover have "generateFurigana demo_deps (u ''   '') True False = Inr []"
    by (simp add: generateFurigana_def falsy_def py_strip_def isspace_def u_def)
  ultimately show ?thesis
    by (simp add: api_furigana_def demo_deps_def demo_reading_def u_def)
qed

text \<open>
  C3, amended. For every text that is not empty, not whitespace-only and carries no
  furigana (\<open>removeFurigana\<close> leaves it unchanged), the endpoint returns what
  \<open>generateFurigana\<close> returns for that text, the same \<open>useRubyTags\<close> flag and the
  analyzer's default for \<open>ignoreNumbers\<close>.
\<close>

theorem api_furigana_agrees:
  "html \<noteq> [] \<Longrightarrow> \<not> list_all isspace html \<Longrightarrow> utils_removeFurigana D html = html \<Longrightarrow>
   api_furigana D default_ignore_numbers \<lparr>req_text = Some html, req_useRubyTags = Some r\<rparr>
     = generateFurigana D html default_ignore_numbers r"
  by (simp add: api_furigana_def generateFurigana_def falsy_def py_strip_Nil_iff)

theorem api_furigana_agrees_witness:
  "[29483] \<noteq> ([] :: pystr) \<and> \<not> list_all isspace [29483] \<and>
   utils_removeFurigana demo_deps [29483] = [29483] \<and>
   api_furigana demo_deps True \<lparr>req_text = Some [29483], req_useRubyTags = Some False\<rparr>
     = generateFurigana demo_deps [29483] True False \<and>
   generateFurigana demo_deps [29483] True False = Inr [29483, 91, 12397, 12371, 93]"
proof -
  have h1: "[29483] \<noteq> ([] :: pystr)" by simp
  have h2: "\<not> list_all isspace [29483]" by (simp add: isspace_def)
  have h3: "utils_removeFurigana demo_deps [29483] = [29483]"
    by (simp add: demo_deps_def removeFurigana_word)
  have "generateFurigana demo_deps [29483] True False = Inr [29483, 91, 12397, 12371, 93]"
    using h3 by (simp add: generateFurigana_def falsy_def py_strip_def isspace_def)
      (simp add: demo_deps_def demo_reading_def u_def)
  with h1 h2 h3 api_furigana_agrees [OF h1 h2 h3, of True False]
  show ?thesis by simp
qed

subsection \<open>Analyzer failure\<close>

text \<open>
  C4. When the analyzer's call raises an error, \<open>generateFurigana\<close> raises that same
  error: its result is the error, not a string. The call is made for every input that
  is not empty and not whitespace-only.
\<close>

theorem generateFurigana_propagates:
  "html \<noteq> [] \<Longrightarrow> \<not> list_all isspace html \<Longrightarrow>
   mecab_reading D (utils_removeFurigana D html) ignore_numbers use_ruby_tags = Inl e \<Longrightarrow>
   generateFurigana D html ignore_numbers use_ruby_tags = Inl e"
  by (simp add: generateFurigana_def falsy_def py_strip_Nil_iff)

theorem generateFurigana_propagates_witness:
  "[29483] \<noteq> ([] :: pystr) \<and> \<not> list_all isspace [29483] \<and>
   mecab_reading down_deps (utils_removeFurigana down_deps [29483]) True False
     = Inl TokenizerUnavailable \<and>
   generateFurigana down_deps [29483] True False = Inl TokenizerUnavailable"
proof -
  have h1: "[29483] \<noteq> ([] :: pystr)" by simp
  have h2: "\<not> list_all isspace [29483]" by (simp add: isspace_def)
  have h3: "mecab_reading down_deps (utils_removeFurigana down_deps [29483]) True False
     = Inl TokenizerUnavailable"
    by (simp add: down_deps_def down_reading_def)
  from h1 h2 h3 generateFurigana_propagates [OF h1 h2 h3] show ?thesis by simp
qed

subsection \<open>Idempotence of stripping\<close>

text \<open>
  C6. On the modelled \<open>removeFurigana\<close>: stripping twice equals stripping once, for
  every text; the stripped text contains no annotation of either encoding; and a text
  that contains no annotation passes through unchanged, in particular every text
  without a \<open>[\<close> and without the tag \<open><ruby>\<close>.
\<close>

theorem removeFurigana_idempotent:
  "removeFurigana (removeFurigana x) = removeFurigana x \<and>
   \<not> annotated (removeFurigana x) \<and>
   (\<not> annotated x \<longrightarrow> removeFurigana x = x) \<and>
   (91 \<notin> set x \<and> \<not> sublist (u ''<ruby>'') x \<longrightarrow> removeFurigana x = x)"
proof -
  have fixed: "strip_pass (removeFurigana x) = removeFurigana x"
    by (rule removeFurigana_fixed)
  then have "removeFurigana (removeFurigana x) = removeFurigana x"
    by (rule removeFurigana_unchanged)
  moreover from fixed have "\<not> annotated (removeFurigana x)"
    by (simp add: strip_pass_def annotated_def strip_from_fixed_iff)
  moreover have noop: "removeFurigana x = x" if "\<not> annotated x"
    using that by (intro removeFurigana_unchanged)
      (simp add: strip_pass_def annotated_def strip_from_fixed_iff)
  moreover have "removeFurigana x = x" if "91 \<notin> set x \<and> \<not> sublist (u ''<ruby>'') x"
    using that annotated_from_marks [of False x] by (intro noop) (auto simp: annotated_def)
  ultimately show ?thesis by blast
qed

theorem removeFurigana_idempotent_witness:
  "\<not> annotated [26085, 26412, 35486, 12434, 21193, 24375, 12377, 12427] \<and>
   91 \<notin> set [26085, 26412, 35486, 12434, 21193, 24375, 12377, 12427 :: nat] \<and>
   \<not> sublist (u ''<ruby>'') [26085, 26412, 35486, 12434, 21193, 24375, 12377, 12427] \<and>
   removeFurigana [26085, 26412, 35486, 12434, 21193, 24375, 12377, 12427]
     = [26085, 26412, 35486, 12434, 21193, 24375, 12377, 12427] \<and>
   removeFurigana (removeFurigana (u ''<ru<ruby>b<rt>r</rt></ruby>y>X<rt>s</rt></ruby>''))
     = removeFurigana (u ''<ru<ruby>b<rt>r</rt></ruby>y>X<rt>s</rt></ruby>'') \<and>
   \<not> annotated (removeFurigana (u ''<ru<ruby>b<rt>r</rt></ruby>y>X<rt>s</rt></ruby>''))"
proof -
  let ?plain = "[26085, 26412, 35486, 12434, 21193, 24375, 12377, 12427 :: nat]"
  have h1: "\<not> annotated ?plain" by (rule not_annotated_example3)
  have h2: "91 \<notin> set ?plain" by simp
  have h3: "\<not> sublist (u ''<ruby>'') ?plain"
    by (simp add: sublist_Cons_right u_def)
  from h1 h2 h3 removeFurigana_idempotent [of ?plain]
    removeFurigana_idempotent [of "u ''<ru<ruby>b<rt>r</rt></ruby>y>X<rt>s</rt></ruby>''"]
  show ?thesis by blast
qed

subsection \<open>The effectively-empty test\<close>

text \<open>
  C10. \<open>is_field_effectively_empty s\<close> holds exactly when \<open>s\<close> is empty, or when
  deleting the tags, stripping the whitespace at both ends and then deleting every
  \<open>&nbsp;\<close> leaves nothing. \<open><br>\<close> and a lone \<open>&nbsp;\<close> are effectively empty;
  \<open>&nbsp; &nbsp;\<close> is not.
\<close>

theorem is_field_effectively_empty_iff:
  "(is_field_effectively_empty s \<longleftrightarrow>
      s = [] \<or> replace_nbsp (py_strip (sub_tags s)) = []) \<and>
   is_field_effectively_empty (u ''<br>'') \<and>
   is_field_effectively_empty (u ''&nbsp;'') \<and>
   \<not> is_field_effectively_empty (u ''&nbsp; &nbsp;'')"
proof -
  have "is_field_effectively_empty s \<longleftrightarrow>
      s = [] \<or> replace_nbsp (py_strip (sub_tags s)) = []"
    by (simp add: is_field_effectively_empty_def falsy_def)
  moreover have "is_field_effectively_empty (u ''<br>'')"
    by (simp add: is_field_effectively_empty_def falsy_def u_def py_strip_def)
  moreover have "is_field_effectively_empty (u ''&nbsp;'')"
    by (simp add: is_field_effectively_empty_def falsy_def u_def py_strip_def nbsp_def isspace_def)
  moreover have "\<not> is_field_effectively_empty (u ''&nbsp; &nbsp;'')"
    by (simp add: is_field_effectively_empty_def falsy_def u_def py_strip_def nbsp_def isspace_def)
  ultimately show ?thesis by blast
qed

section \<open>Properties of the scan's selection\<close>

lemma scan_pairs_iff: "scan_pairs note pairs \<longleftrightarrow> (\<exists>pair \<in> set pairs. pair_selects note pair)"
  by (induction pairs) auto

lemma get_note_id: "get_note w nid = Inr note \<Longrightarrow> note_id note = nid"
  by (auto simp: get_note_def split: option.splits)

lemma scan_nids_iff:
  "scan_nids w pairs nids acc = Inr S \<Longrightarrow>
   k \<in> S \<longleftrightarrow> k \<in> acc \<or> (k \<in> set nids \<and>
     (case get_note w k of Inl e \<Rightarrow> False
      | Inr note \<Rightarrow> \<exists>pair \<in> set pairs. pair_selects note pair))"
proof (induction nids arbitrary: acc)
  case Nil
  then show ?case by simp
next
  case (Cons nid nids)
  from Cons.prems obtain nt where n: "get_note w nid = Inr nt"
    by (auto split: sum.splits)
  let ?acc = "if scan_pairs nt pairs then insert (note_id nt) acc else acc"
  from Cons.prems n have "scan_nids w pairs nids ?acc = Inr S" by simp
  from Cons.IH [OF this] n get_note_id [OF n] show ?case
    by (auto simp: scan_pairs_iff split: sum.splits)
qed

lemma scan_rules_iff:
  "scan_rules E w rules acc = Inr S \<Longrightarrow>
   k \<in> S \<longleftrightarrow> k \<in> acc \<or> (\<exists>rule \<in> set rules. rule_selects E w rule k)"
proof (induction rules arbitrary: acc)
  case Nil
  then show ?case by simp
next
  case (Cons rule rules)
  show ?case
  proof (cases "deckName rule")
    case None
    with Cons.prems have "scan_rules E w rules acc = Inr S" by simp
    from Cons.IH [OF this] None show ?thesis by (simp add: rule_selects_def)
  next
    case (Some d)
    show ?thesis
    proof (cases "d = []")
      case True
      with Some Cons.prems have "scan_rules E w rules acc = Inr S" by (simp add: falsy_def)
      from Cons.IH [OF this] Some True show ?thesis by (simp add: rule_selects_def)
    next
      case False
      with Some Cons.prems obtain ids where
        a: "scan_nids w (fieldPairs rule) (find_notes E (deck_query d)) acc = Inr ids" and
        b: "scan_rules E w rules ids = Inr S"
        by (auto simp: falsy_def split: sum.splits)
      have "k \<in> ids \<longleftrightarrow> k \<in> acc \<or> rule_selects E w rule k"
        using scan_nids_iff [OF a, of k] Some False by (simp add: rule_selects_def)
      with Cons.IH [OF b] show ?thesis by auto
    qed
  qed
qed

lemma find_notes_to_process_single_pair:
  assumes "find_notes_to_process E w [\<lparr>deckName = Some d, fieldPairs = [pair]\<rparr>] = Inr S"
    and "d \<noteq> []" and "nid \<in> set (find_notes E (deck_query d))"
    and "get_note w nid = Inr note"
    and "note_get note (source pair) = Some source_text"
    and "note_get note (destination pair) = Some destination_text"
    and "source_text \<noteq> []"
  shows "nid \<in> S \<longleftrightarrow> needs_generation source_text destination_text"
  using scan_rules_iff [of E w "[\<lparr>deckName = Some d, fieldPairs = [pair]\<rparr>]" "{}" S nid] assms
  by (simp add: find_notes_to_process_def rule_selects_def pair_selects_def falsy_def)

lemmas scan_ev = find_notes_to_process_def scan_env_def scan_world_def scan_rule_def
  get_note_def pair_selects_def note_get_def needs_generation_def falsy_def deck_query_def
  is_field_effectively_empty_def py_strip_def isspace_def nbsp_def u_def

lemma scan_example: "find_notes_to_process scan_env scan_world [scan_rule] = Inr {1}"
  by (simp add: scan_ev)

text \<open>
  C7, as stated, fails: a note is selected as soon as one field pair passes the test, so
  for another pair of the same rule the test can be false on a selected note. Note 1 of
  \<open>scan_world\<close> is selected through its sentence, whose reading is empty; for the pair
  of \<open>Expression\<close> and \<open>Reading\<close> the source is not empty, and the destination is neither
  effectively empty nor equal to the source.
\<close>

theorem find_notes_to_process_not_per_pair:
  "find_notes_to_process scan_env scan_world [scan_rule] = Inr {1} \<and>
   get_note scan_world 1
     = Inr \<lparr>note_id = 1,
            note_fields = [(u ''Expression'', [29483]), (u ''Reading'', u ''neko''),
                           (u ''Sentence'', [29483, 12364, 22909, 12365]),
                           (u ''SentenceReading'', [])]\<rparr> \<and>
   hd (fieldPairs scan_rule)
     = \<lparr>source = Some (u ''Expression''), destination = Some (u ''Reading'')\<rparr> \<and>
   \<not> needs_generation [29483] (u ''neko'')"
  by (simp add: scan_example) (simp add: scan_ev)

text \<open>
  C7, amended. When the scan succeeds, a note is selected if and only if some rule
  selects it: the rule has a non-empty deck name, its deck query returns the note, and
  for at least one field pair of the rule both fields are on the note, the source text is
  not empty, and the destination is effectively empty or equal to the source.
\<close>

theorem find_notes_to_process_selects:
  "find_notes_to_process E w rules = Inr S \<Longrightarrow>
   nid \<in> S \<longleftrightarrow> (\<exists>rule \<in> set rules. rule_selects E w rule nid)"
  using scan_rules_iff [of E w rules "{}" S nid] by (simp add: find_notes_to_process_def)

theorem find_notes_to_process_selects_witness:
  "find_notes_to_process scan_env scan_world [scan_rule] = Inr {1} \<and>
   (1 \<in> {1::nat} \<longleftrightarrow> (\<exists>rule \<in> set [scan_rule]. rule_selects scan_env scan_world rule 1)) \<and>
   rule_selects scan_env scan_world scan_rule 1"
proof -
  have h: "find_notes_to_process scan_env scan_world [scan_rule] = Inr {1}"
    by (rule scan_example)
  from h find_notes_to_process_selects [OF h, of 1] show ?thesis by simp
qed

section \<open>Properties of the batch and of the update step\<close>

subsection \<open>Frames\<close>

lemma frame_ok_refl: "frame_ok dests fs fs"
  by (simp add: frame_ok_def)

lemma frame_ok_trans: "frame_ok dests fs fs' \<Longrightarrow> frame_ok dests fs' fs'' \<Longrightarrow> frame_ok dests fs fs''"
  by (simp add: frame_ok_def)

lemma frame_ok_mono: "frame_ok A fs fs' \<Longrightarrow> A \<subseteq> B \<Longrightarrow> frame_ok B fs fs'"
  by (auto simp: frame_ok_def)

lemma store_frame_refl: "store_frame dests ns ns"
  by (simp add: store_frame_def frame_ok_refl)

lemma map_fst_eq_map_of_None:
  "map fst xs = map fst ys \<Longrightarrow> map_of xs k = None \<longleftrightarrow> map_of ys k = None"
  by (metis map_of_eq_None_iff set_map)

lemma store_frame_trans:
  assumes "store_frame dests ns ns'" and "store_frame dests ns' ns''"
  shows "store_frame dests ns ns''"
proof -
  have keys: "map fst ns' = map fst ns" "map fst ns'' = map fst ns'"
    using assms by (simp_all add: store_frame_def)
  {
    fix k fs fs''
    assume a: "map_of ns k = Some fs" and c: "map_of ns'' k = Some fs''"
    from a keys(1) obtain fs' where b: "map_of ns' k = Some fs'"
      using map_fst_eq_map_of_None [OF keys(1), of k] by (cases "map_of ns' k") auto
    from assms a b c have "frame_ok dests fs fs'" "frame_ok dests fs' fs''"
      by (auto simp: store_frame_def)
    then have "frame_ok dests fs fs''" by (rule frame_ok_trans)
  }
  with keys show ?thesis by (simp add: store_frame_def)
qed

lemma note_set_frame:
  assumes "map_of (note_fields n) d = Some old"
  shows "note_id (note_set n d new) = note_id n"
    and "frame_ok {d} (note_fields n) (note_fields (note_set n d new))"
proof -
  show "note_id (note_set n d new) = note_id n" by (simp add: note_set_def)
  from assms have "d \<in> set (map fst (note_fields n))"
    by (metis map_of_eq_None_iff option.distinct(1) set_map)
  then show "frame_ok {d} (note_fields n) (note_fields (note_set n d new))"
    by (simp add: frame_ok_def note_set_def update_keys update_conv')
qed

lemma note_set_neq:
  assumes "map_of (note_fields n) d = Some old" and "new \<noteq> old"
  shows "note_set n d new \<noteq> n"
proof
  assume "note_set n d new = n"
  then have "map_of (note_fields (note_set n d new)) d = map_of (note_fields n) d" by simp
  with assms show False by (simp add: note_set_def update_conv')
qed

lemma store_note_frame:
  assumes "map_of (col_notes w) (note_id n) = Some fs" and "frame_ok dests fs (note_fields n)"
  shows "store_frame dests (col_notes w) (col_notes (store_note n w))"
proof -
  from assms(1) have "note_id n \<in> set (map fst (col_notes w))"
    by (metis map_of_eq_None_iff option.distinct(1) set_map)
  then have "map fst (col_notes (store_note n w)) = map fst (col_notes w)"
    by (simp add: store_note_def update_keys)
  moreover have "frame_ok dests fs0 fs1"
    if "map_of (col_notes w) k = Some fs0" "map_of (col_notes (store_note n w)) k = Some fs1"
    for k fs0 fs1
    using that assms by (cases "k = note_id n") (auto simp: store_note_def update_conv' frame_ok_refl)
  ultimately show ?thesis by (simp add: store_frame_def)
qed

subsection \<open>One field pair in \<open>bulkGenerate\<close>\<close>

lemma bulk_pair_noop:
  "noop_pair D i r n p \<Longrightarrow> bulk_pair D i r p (n, m) = Inr (n, m)"
  by (auto simp: bulk_pair_def noop_pair_def note_get_def falsy_def
      split: option.splits sum.splits if_splits)

lemma bulk_pair_assigns:
  assumes "bulk_pair D i r p (n, m) = Inr (n', m')" and "\<not> noop_pair D i r n p"
  shows "\<exists>d old new. destination p = Some d \<and> map_of (note_fields n) d = Some old \<and>
            new \<noteq> old \<and> n' = note_set n d new \<and> m'"
proof -
  from assms(2) obtain s d st dt where
    p: "source p = Some s" "destination p = Some d" "s \<noteq> []" "d \<noteq> []" and
    f: "map_of (note_fields n) s = Some st" "map_of (note_fields n) d = Some dt" "st \<noteq> []" and
    g: "generateFurigana D st i r \<noteq> Inr dt"
    by (auto simp: noop_pair_def note_get_def split: option.splits)
  from assms(1) p f obtain new where new: "generateFurigana D st i r = Inr new"
    by (cases "generateFurigana D st i r") (auto simp: bulk_pair_def note_get_def falsy_def)
  with g have "new \<noteq> dt" by auto
  moreover from assms(1) p f new \<open>new \<noteq> dt\<close> have "n' = note_set n d new \<and> m'"
    by (auto simp: bulk_pair_def note_get_def falsy_def)
  ultimately show ?thesis using p f by blast
qed

lemma bulk_pair_frame:
  assumes "bulk_pair D i r p (n, m) = Inr (n', m')"
  shows "note_id n' = note_id n \<and> frame_ok (dest_names [p]) (note_fields n) (note_fields n') \<and>
         (m \<longrightarrow> m')"
proof (cases "noop_pair D i r n p")
  case True
  with assms show ?thesis by (simp add: bulk_pair_noop frame_ok_refl)
next
  case False
  from bulk_pair_assigns [OF assms False] obtain d old new where
    a: "destination p = Some d" "map_of (note_fields n) d = Some old" "n' = note_set n d new" "m'"
    by blast
  from note_set_frame [OF a(2), of new] a show ?thesis
    by (auto simp: dest_names_def elim: frame_ok_mono)
qed

subsection \<open>The field pairs of one note\<close>

lemma dest_names_Cons: "dest_names (p # ps) = dest_names [p] \<union> dest_names ps"
  by (auto simp: dest_names_def)

lemma bulk_pairs_frame:
  "bulk_pairs D i r ps (n, m) = Inr (n', m') \<Longrightarrow>
   note_id n' = note_id n \<and> frame_ok (dest_names ps) (note_fields n) (note_fields n') \<and>
   (m \<longrightarrow> m')"
proof (induction ps arbitrary: n m)
  case Nil
  then show ?case by (simp add: frame_ok_refl)
next
  case (Cons p ps)
  from Cons.prems obtain n1 m1 where
    a: "bulk_pair D i r p (n, m) = Inr (n1, m1)" and
    b: "bulk_pairs D i r ps (n1, m1) = Inr (n', m')"
    by (auto split: sum.splits)
  from bulk_pair_frame [OF a] Cons.IH [OF b] show ?case
    by (auto simp: dest_names_Cons [of p ps] intro: frame_ok_trans frame_ok_mono)
qed

lemma bulk_pairs_noop:
  "\<forall>p \<in> set ps. noop_pair D i r n p \<Longrightarrow> bulk_pairs D i r ps (n, m) = Inr (n, m)"
  by (induction ps) (simp_all add: bulk_pair_noop)

lemma bulk_pairs_flag:
  "bulk_pairs D i r ps (n, False) = Inr (n', m') \<Longrightarrow>
   m' \<longleftrightarrow> (\<exists>p \<in> set ps. \<not> noop_pair D i r n p)"
proof (induction ps)
  case Nil
  then show ?case by simp
next
  case (Cons p ps)
  show ?case
  proof (cases "noop_pair D i r n p")
    case True
    with Cons show ?thesis by (simp add: bulk_pair_noop)
  next
    case False
    from Cons.prems obtain n1 m1 where
      a: "bulk_pair D i r p (n, False) = Inr (n1, m1)" and
      b: "bulk_pairs D i r ps (n1, m1) = Inr (n', m')"
      by (auto split: sum.splits)
    from bulk_pair_assigns [OF a False] have "m1" by blast
    with bulk_pairs_frame [OF b] have "m'" by simp
    with False show ?thesis by auto
  qed
qed

subsection \<open>One note of the batch\<close>

lemma report_progress_keeps:
  "notes_modified_count (report_progress clock progress i total_notes st) = notes_modified_count st"
  "col_notes (world (report_progress clock progress i total_notes st)) = col_notes (world st)"
  "col_log (world (report_progress clock progress i total_notes st)) = col_log (world st)"
  by (simp_all add: report_progress_def time_time_def)

lemma get_note_Inr:
  "get_note w nid = Inr n \<Longrightarrow> note_id n = nid \<and> map_of (col_notes w) nid = Some (note_fields n)"
  by (auto simp: get_note_def split: option.splits)

lemma bulk_note_noop:
  assumes "get_note (world st) nid = Inr n" and "\<forall>p \<in> set pairs. noop_pair D ign ruby n p"
  shows "bulk_note D clock pairs progress ign ruby undo total_notes i nid st
           = (None, report_progress clock progress i total_notes st)"
  using assms by (simp add: bulk_note_def bulk_pairs_noop)

lemma bulk_note_cases:
  assumes "bulk_note D clock pairs progress ign ruby undo total_notes i nid st = (err, st')"
  shows "(err \<noteq> None \<and> st' = st) \<or>
         (err = None \<and> st' = report_progress clock progress i total_notes st) \<or>
         (\<exists>n n'. err = None \<and> get_note (world st) nid = Inr n \<and>
            bulk_pairs D ign ruby pairs (n, False) = Inr (n', True) \<and>
            st' = report_progress clock progress i total_notes
                    (st\<lparr>notes_modified_count := notes_modified_count st + 1,
                        world := log_event (MergeUndoEntries undo)
                                   (update_note n' (world st))\<rparr>))"
  using assms by (auto simp: bulk_note_def split: sum.splits if_splits)

lemma bulk_note_frame:
  assumes "bulk_note D clock pairs progress ign ruby undo total_notes i nid st = (err, st')"
  shows "store_frame (dest_names pairs) (col_notes (world st)) (col_notes (world st'))"
proof -
  from bulk_note_cases [OF assms] consider
    "st' = st" | "st' = report_progress clock progress i total_notes st" |
    n n' where "get_note (world st) nid = Inr n"
      "bulk_pairs D ign ruby pairs (n, False) = Inr (n', True)"
      "st' = report_progress clock progress i total_notes
                    (st\<lparr>notes_modified_count := notes_modified_count st + 1,
                        world := log_event (MergeUndoEntries undo)
                                   (update_note n' (world st))\<rparr>)"
    by blast
  then show ?thesis
  proof cases
    case 1
    then show ?thesis by (simp add: store_frame_refl)
  next
    case 2
    then show ?thesis by (simp add: report_progress_keeps store_frame_refl)
  next
    case 3
    from get_note_Inr [OF 3(1)] bulk_pairs_frame [OF 3(2)]
    have "map_of (col_notes (world st)) (note_id n') = Some (note_fields n)"
      and "frame_ok (dest_names pairs) (note_fields n) (note_fields n')"
      by simp_all
    from store_note_frame [OF this] 3(3) show ?thesis
      by (simp add: report_progress_keeps update_note_def log_event_def)
  qed
qed

lemma count_updates_simps:
  "count_updates [] = 0"
  "count_updates (evs @ evs') = count_updates evs + count_updates evs'"
  "count_updates (UpdateNote n # evs) = Suc (count_updates evs)"
  "count_updates (MergeUndoEntries k # evs) = count_updates evs"
  "count_updates (AddCustomUndoEntry s # evs) = count_updates evs"
  "count_updates (Flush n # evs) = count_updates evs"
  by (simp_all add: count_updates_def is_update_def)

lemma bulk_note_count:
  assumes "bulk_note D clock pairs progress ign ruby undo total_notes i nid st = (err, st')"
  shows "count_updates (col_log (world st')) + notes_modified_count st
           = count_updates (col_log (world st)) + notes_modified_count st'"
  using bulk_note_cases [OF assms]
  by (auto simp: report_progress_keeps update_note_def log_event_def store_note_def
      count_updates_simps)

subsection \<open>The loop over the notes\<close>

lemma bulk_loop_frame:
  "bulk_loop D clock pairs progress ign ruby undo total_notes i ids st = (err, st') \<Longrightarrow>
   store_frame (dest_names pairs) (col_notes (world st)) (col_notes (world st'))"
proof (induction ids arbitrary: i st)
  case Nil
  then show ?case by (simp add: store_frame_refl)
next
  case (Cons nid ids)
  obtain e1 st1 where
    a: "bulk_note D clock pairs progress ign ruby undo total_notes i nid st = (e1, st1)"
    by (cases "bulk_note D clock pairs progress ign ruby undo total_notes i nid st")
  show ?case
  proof (cases e1)
    case None
    with Cons.prems a have
      "bulk_loop D clock pairs progress ign ruby undo total_notes (i + 1) ids st1 = (err, st')"
      by simp
    from store_frame_trans [OF bulk_note_frame [OF a] Cons.IH [OF this]] show ?thesis .
  next
    case (Some e)
    with Cons.prems a have "st' = st1" by simp
    with bulk_note_frame [OF a] show ?thesis by simp
  qed
qed

lemma bulk_loop_count:
  "bulk_loop D clock pairs progress ign ruby undo total_notes i ids st = (err, st') \<Longrightarrow>
   count_updates (col_log (world st')) + notes_modified_count st
     = count_updates (col_log (world st)) + notes_modified_count st'"
proof (induction ids arbitrary: i st)
  case Nil
  then show ?case by simp
next
  case (Cons nid ids)
  obtain e1 st1 where
    a: "bulk_note D clock pairs progress ign ruby undo total_notes i nid st = (e1, st1)"
    by (cases "bulk_note D clock pairs progress ign ruby undo total_notes i nid st")
  show ?case
  proof (cases e1)
    case None
    with Cons.prems a have
      "bulk_loop D clock pairs progress ign ruby undo total_notes (i + 1) ids st1 = (err, st')"
      by simp
    from bulk_note_count [OF a] Cons.IH [OF this] show ?thesis by linarith
  next
    case (Some e)
    with Cons.prems a have "st' = st1" by simp
    with bulk_note_count [OF a] show ?thesis by simp
  qed
qed

lemma bulkGenerate_frame:
  "store_frame (dest_names pairs) (col_notes w)
     (col_notes (snd (bulkGenerate D clock w ids pairs progress ign ruby)))"
proof -
  let ?st0 = "\<lparr>last_progress_update = 0, notes_modified_count = 0,
               world = log_event (AddCustomUndoEntry (u ''Batch Generate Furigana'')) w\<rparr>"
  obtain err st' where
    a: "bulk_loop D clock pairs progress ign ruby (length (col_log w)) (length ids) 0 ids ?st0
          = (err, st')"
    by (cases "bulk_loop D clock pairs progress ign ruby (length (col_log w)) (length ids) 0 ids ?st0")
  have "col_notes (snd (bulkGenerate D clock w ids pairs progress ign ruby)) = col_notes (world st')"
    using a by (cases err) (simp_all add: bulkGenerate_def Let_def)
  with bulk_loop_frame [OF a] show ?thesis by (simp add: log_event_def)
qed

lemma bulkGenerate_count:
  assumes "fst (bulkGenerate D clock w ids pairs progress ign ruby) = Inr k"
  shows "count_updates (col_log (snd (bulkGenerate D clock w ids pairs progress ign ruby)))
           = count_updates (col_log w) + k"
proof -
  let ?st0 = "\<lparr>last_progress_update = 0, notes_modified_count = 0,
               world = log_event (AddCustomUndoEntry (u ''Batch Generate Furigana'')) w\<rparr>"
  obtain err st' where
    a: "bulk_loop D clock pairs progress ign ruby (length (col_log w)) (length ids) 0 ids ?st0
          = (err, st')"
    by (cases "bulk_loop D clock pairs progress ign ruby (length (col_log w)) (length ids) 0 ids ?st0")
  from assms a have "err = None" and "k = notes_modified_count st'"
    and "snd (bulkGenerate D clock w ids pairs progress ign ruby) = world st'"
    by (cases err; simp add: bulkGenerate_def Let_def)+
  with bulk_loop_count [OF a] show ?thesis
    by (simp add: log_event_def count_updates_simps)
qed

subsection \<open>The progress callback\<close>

lemma spaced_snoc:
  "spaced cs \<Longrightarrow> cs = [] \<or> checked_at c - stored_at (last cs) \<ge> 1 / 10 \<Longrightarrow> spaced (cs @ [c])"
  by (induction cs rule: spaced.induct) auto

lemma report_progress_log:
  "progress_log (world (report_progress clock progress i total_notes st)) = progress_log (world st) \<or>
   (\<exists>c. progress_log (world (report_progress clock progress i total_notes st))
          = progress_log (world st) @ [c] \<and> call_args c = (i + 1, total_notes))"
  by (simp add: report_progress_def time_time_def call_args_def)

lemma report_progress_off:
  "progress_log (world (report_progress clock False i total_notes st)) = progress_log (world st)"
  by (simp add: report_progress_def time_time_def)

lemma report_progress_inv:
  assumes "progress_inv st"
  shows "progress_inv (report_progress clock True i total_notes st)"
proof (cases "clock (ticks (world st)) - last_progress_update st \<ge> 1 / 10")
  case False
  with assms show ?thesis
    by (simp add: report_progress_def time_time_def progress_inv_def)
next
  case True
  let ?c = "\<lparr>n_done = i + 1, n_total = total_notes, checked_at = clock (ticks (world st)),
             stored_at = clock (Suc (ticks (world st)))\<rparr>"
  from True have eq: "progress_log (world (report_progress clock True i total_notes st))
      = progress_log (world st) @ [?c]"
    and l: "last_progress_update (report_progress clock True i total_notes st)
      = clock (Suc (ticks (world st)))"
    by (simp_all add: report_progress_def time_time_def)
  from assms True have "spaced (progress_log (world st) @ [?c])"
    by (intro spaced_snoc) (auto simp: progress_inv_def)
  with eq l show ?thesis by (simp add: progress_inv_def)
qed

lemma bulk_note_shape:
  assumes "bulk_note D clock pairs progress ign ruby undo total_notes i nid st = (err, st')"
  shows "st' = st \<or>
         (\<exists>st1. st' = report_progress clock progress i total_notes st1 \<and>
            progress_log (world st1) = progress_log (world st) \<and>
            last_progress_update st1 = last_progress_update st)"
  using bulk_note_cases [OF assms]
  by (auto simp: update_note_def log_event_def store_note_def)

lemma bulk_note_log:
  assumes "bulk_note D clock pairs progress ign ruby undo total_notes i nid st = (err, st')"
  shows "progress_log (world st') = progress_log (world st) \<or>
         (\<exists>c. progress_log (world st') = progress_log (world st) @ [c] \<and>
              call_args c = (i + 1, total_notes))"
proof -
  from bulk_note_shape [OF assms] consider "st' = st" |
    st1 where "st' = report_progress clock progress i total_notes st1"
      "progress_log (world st1) = progress_log (world st)"
    by blast
  then show ?thesis
  proof cases
    case 1
    then show ?thesis by simp
  next
    case 2
    with report_progress_log [of clock progress i total_notes st1] show ?thesis by simp
  qed
qed

lemma bulk_note_off:
  assumes "bulk_note D clock pairs False ign ruby undo total_notes i nid st = (err, st')"
  shows "progress_log (world st') = progress_log (world st)"
  using bulk_note_shape [OF assms] by (auto simp: report_progress_off)

lemma bulk_note_inv:
  assumes "bulk_note D clock pairs True ign ruby undo total_notes i nid st = (err, st')"
    and "progress_inv st"
  shows "progress_inv st'"
proof -
  from bulk_note_shape [OF assms(1)] consider "st' = st" |
    st1 where "st' = report_progress clock True i total_notes st1"
      "progress_log (world st1) = progress_log (world st)"
      "last_progress_update st1 = last_progress_update st"
    by blast
  then show ?thesis
  proof cases
    case 1
    with assms(2) show ?thesis by simp
  next
    case 2
    from 2(2,3) assms(2) have "progress_inv st1" by (simp add: progress_inv_def)
    with 2(1) show ?thesis by (simp add: report_progress_inv)
  qed
qed

lemma bulk_loop_log:
  "bulk_loop D clock pairs progress ign ruby undo total_notes i ids st = (err, st') \<Longrightarrow>
   \<exists>cs. progress_log (world st') = progress_log (world st) @ cs \<and>
        subseq (map call_args cs) (map (\<lambda>j. (j + 1, total_notes)) [i..<i + length ids])"
proof (induction ids arbitrary: i st)
  case Nil
  then show ?case by simp
next
  case (Cons nid ids)
  obtain e1 st1 where
    a: "bulk_note D clock pairs progress ign ruby undo total_notes i nid st = (e1, st1)"
    by (cases "bulk_note D clock pairs progress ign ruby undo total_notes i nid st")
  have "i < i + length (nid # ids)" by simp
  from upt_conv_Cons [OF this]
  have upt: "[i..<i + length (nid # ids)] = i # [i + 1..<i + 1 + length ids]"
    by simp
  from bulk_note_log [OF a] obtain cs1 where
    c1: "progress_log (world st1) = progress_log (world st) @ cs1" and
    s1: "cs1 = [] \<or> map call_args cs1 = [(i + 1, total_notes)]"
    by auto
  show ?case
  proof (cases e1)
    case None
    with Cons.prems a have
      "bulk_loop D clock pairs progress ign ruby undo total_notes (i + 1) ids st1 = (err, st')"
      by simp
    from Cons.IH [OF this] obtain cs2 where
      c2: "progress_log (world st') = progress_log (world st1) @ cs2" and
      s2: "subseq (map call_args cs2) (map (\<lambda>j. (j + 1, total_notes)) [i + 1..<i + 1 + length ids])"
      by blast
    from s1 s2 have "subseq (map call_args (cs1 @ cs2))
        (map (\<lambda>j. (j + 1, total_notes)) [i..<i + length (nid # ids)])"
      unfolding upt by auto
    with c1 c2 show ?thesis by auto
  next
    case (Some e)
    with Cons.prems a have "st' = st1" by simp
    moreover from s1 have "subseq (map call_args cs1)
        (map (\<lambda>j. (j + 1, total_notes)) [i..<i + length (nid # ids)])"
      unfolding upt by auto
    ultimately show ?thesis using c1 by auto
  qed
qed

lemma bulk_loop_off:
  "bulk_loop D clock pairs False ign ruby undo total_notes i ids st = (err, st') \<Longrightarrow>
   progress_log (world st') = progress_log (world st)"
proof (induction ids arbitrary: i st)
  case Nil
  then show ?case by simp
next
  case (Cons nid ids)
  obtain e1 st1 where
    a: "bulk_note D clock pairs False ign ruby undo total_notes i nid st = (e1, st1)"
    by (cases "bulk_note D clock pairs False ign ruby undo total_notes i nid st")
  with Cons.prems Cons.IH [of "i + 1" st1] bulk_note_off [OF a] show ?case
    by (cases e1) auto
qed

lemma bulk_loop_inv:
  "bulk_loop D clock pairs True ign ruby undo total_notes i ids st = (err, st') \<Longrightarrow>
   progress_inv st \<Longrightarrow> progress_inv st'"
proof (induction ids arbitrary: i st)
  case Nil
  then show ?case by simp
next
  case (Cons nid ids)
  obtain e1 st1 where
    a: "bulk_note D clock pairs True ign ruby undo total_notes i nid st = (e1, st1)"
    by (cases "bulk_note D clock pairs True ign ruby undo total_notes i nid st")
  with Cons.prems Cons.IH [of "i + 1" st1] bulk_note_inv [OF a] show ?case
    by (cases e1) auto
qed

lemma bulk_loop_spaced:
  assumes "bulk_loop D clock pairs progress ign ruby undo total_notes i ids st = (err, st')"
    and "progress_log (world st) = []"
  shows "spaced (progress_log (world st'))"
proof (cases progress)
  case True
  from assms(2) have "progress_inv st" by (simp add: progress_inv_def)
  moreover from assms(1) True have
    "bulk_loop D clock pairs True ign ruby undo total_notes i ids st = (err, st')" by simp
  ultimately have "progress_inv st'" by (rule bulk_loop_inv [rotated])
  then show ?thesis by (simp add: progress_inv_def)
next
  case False
  with assms(1) have
    "bulk_loop D clock pairs False ign ruby undo total_notes i ids st = (err, st')" by simp
  from bulk_loop_off [OF this] assms(2) show ?thesis by simp
qed

subsection \<open>The batch against its description\<close>

lemma bulk_pair_result:
  assumes "bulk_pair D i r p (n, m) = Inr (n', m')"
  shows "note_fields n' = assign_step D i r (note_fields n) p \<and> note_id n' = note_id n \<and>
         m' = (m \<or> assigned_text D i r (note_fields n) p \<noteq> None)"
  using assms
  by (auto simp: bulk_pair_def assigned_text_def assign_step_def note_get_def note_set_def
      falsy_def split: option.splits sum.splits if_splits)

lemma assign_step_None: "assigned_text D i r fs p = None \<Longrightarrow> assign_step D i r fs p = fs"
  by (simp add: assign_step_def)

lemma bulk_pairs_result:
  "bulk_pairs D i r ps (n, m) = Inr (n', m') \<Longrightarrow>
   note_fields n' = note_result D i r ps (note_fields n) \<and> note_id n' = note_id n \<and>
   m' = (m \<or> note_modified D i r ps (note_fields n))"
proof (induction ps arbitrary: n m)
  case Nil
  then show ?case by (simp add: note_result_def note_modified_def)
next
  case (Cons p ps)
  from Cons.prems obtain n1 m1 where
    a: "bulk_pair D i r p (n, m) = Inr (n1, m1)" and
    b: "bulk_pairs D i r ps (n1, m1) = Inr (n', m')"
    by (auto split: sum.splits)
  note r1 = bulk_pair_result [OF a]
  note r2 = Cons.IH [OF b]
  have f: "note_fields n' = note_result D i r (p # ps) (note_fields n)"
    using r1 r2 by (simp add: note_result_def)
  have "m' = (m \<or> note_modified D i r (p # ps) (note_fields n))"
  proof (cases "assigned_text D i r (note_fields n) p")
    case None
    with r1 have "note_fields n1 = note_fields n" "m1 = m" by (simp_all add: assign_step_None)
    with r2 None show ?thesis by (simp add: note_modified_def)
  next
    case (Some dg)
    with r1 have "m1" by simp
    with r2 Some show ?thesis by (simp add: note_modified_def)
  qed
  with f r1 r2 show ?case by simp
qed

lemma bulk_note_result:
  assumes "bulk_note D clock pairs progress ign ruby undo total_notes i nid st = (None, st')"
  shows "\<exists>fs. map_of (col_notes (world st)) nid = Some fs \<and>
     (notes_modified_count st', col_notes (world st')) =
       (if note_modified D ign ruby pairs fs
        then (notes_modified_count st + 1,
              AList.update nid (note_result D ign ruby pairs fs) (col_notes (world st)))
        else (notes_modified_count st, col_notes (world st)))"
proof -
  from assms obtain n n' m' where
    g: "get_note (world st) nid = Inr n" and
    b: "bulk_pairs D ign ruby pairs (n, False) = Inr (n', m')" and
    s: "st' = report_progress clock progress i total_notes
              (if m' then st\<lparr>notes_modified_count := notes_modified_count st + 1,
                             world := log_event (MergeUndoEntries undo)
                                        (update_note n' (world st))\<rparr>
               else st)"
    by (auto simp: bulk_note_def split: sum.splits)
  from get_note_Inr [OF g] have fs: "map_of (col_notes (world st)) nid = Some (note_fields n)"
    and nid: "note_id n = nid" by simp_all
  from bulk_pairs_result [OF b] nid have
    r: "note_fields n' = note_result D ign ruby pairs (note_fields n)" "note_id n' = nid"
      "m' = note_modified D ign ruby pairs (note_fields n)" by simp_all
  from s r have "(notes_modified_count st', col_notes (world st')) =
       (if note_modified D ign ruby pairs (note_fields n)
        then (notes_modified_count st + 1,
              AList.update nid (note_result D ign ruby pairs (note_fields n))
                (col_notes (world st)))
        else (notes_modified_count st, col_notes (world st)))"
    by (simp add: report_progress_keeps update_note_def log_event_def store_note_def)
  with fs show ?thesis by blast
qed

lemma bulk_loop_result:
  "bulk_loop D clock pairs progress ign ruby undo total_notes i ids st = (None, st') \<Longrightarrow>
   (notes_modified_count st', col_notes (world st'))
     = batch_result D ign ruby pairs ids (notes_modified_count st, col_notes (world st))"
proof (induction ids arbitrary: i st)
  case Nil
  then show ?case by simp
next
  case (Cons nid ids)
  obtain e1 st1 where
    a: "bulk_note D clock pairs progress ign ruby undo total_notes i nid st = (e1, st1)"
    by (cases "bulk_note D clock pairs progress ign ruby undo total_notes i nid st")
  with Cons.prems have e: "e1 = None" by (cases e1) auto
  with Cons.prems a have
    l: "bulk_loop D clock pairs progress ign ruby undo total_notes (i + 1) ids st1 = (None, st')"
    by simp
  from bulk_note_result [OF a [unfolded e]] obtain fs where
    fs: "map_of (col_notes (world st)) nid = Some fs" and
    r: "(notes_modified_count st1, col_notes (world st1)) =
       (if note_modified D ign ruby pairs fs
        then (notes_modified_count st + 1,
              AList.update nid (note_result D ign ruby pairs fs) (col_notes (world st)))
        else (notes_modified_count st, col_notes (world st)))"
    by blast
  from Cons.IH [OF l] r fs show ?case by (auto split: if_splits)
qed

lemma bulkGenerate_result:
  assumes "fst (bulkGenerate D clock w ids pairs progress ign ruby) = Inr k"
  shows "(k, col_notes (snd (bulkGenerate D clock w ids pairs progress ign ruby)))
           = batch_result D ign ruby pairs ids (0, col_notes w)"
proof -
  let ?st0 = "\<lparr>last_progress_update = 0, notes_modified_count = 0,
               world = log_event (AddCustomUndoEntry (u ''Batch Generate Furigana'')) w\<rparr>"
  obtain err st' where
    a: "bulk_loop D clock pairs progress ign ruby (length (col_log w)) (length ids) 0 ids ?st0
          = (err, st')"
    by (cases "bulk_loop D clock pairs progress ign ruby (length (col_log w)) (length ids) 0 ids ?st0")
  from assms a have e: "err = None" and k: "k = notes_modified_count st'"
    and s: "snd (bulkGenerate D clock w ids pairs progress ign ruby) = world st'"
    by (cases err; simp add: bulkGenerate_def Let_def)+
  from bulk_loop_result [OF a [unfolded e]] k s show ?thesis
    by (simp add: log_event_def)
qed

lemma noop_pair_assigns_nothing:
  "noop_pair D i r n p \<Longrightarrow> assigned_text D i r (note_fields n) p = None"
  by (auto simp: noop_pair_def assigned_text_def note_get_def split: option.splits sum.splits)

lemma noop_pairs_not_modified:
  "\<forall>p \<in> set ps. noop_pair D i r n p \<Longrightarrow> \<not> note_modified D i r ps (note_fields n)"
  by (simp add: note_modified_def noop_pair_assigns_nothing)

subsection \<open>The progress calls against the clock\<close>

lemma report_progress_exact:
  "progress_log (world (report_progress clock progress i total_notes st))
     = progress_log (world st) @
       (if progress \<and> clock (ticks (world st)) - last_progress_update st \<ge> 1 / 10
        then [\<lparr>n_done = i + 1, n_total = total_notes, checked_at = clock (ticks (world st)),
               stored_at = clock (Suc (ticks (world st)))\<rparr>]
        else [])"
  "last_progress_update (report_progress clock progress i total_notes st)
     = (if clock (ticks (world st)) - last_progress_update st \<ge> 1 / 10
        then clock (Suc (ticks (world st))) else last_progress_update st)"
  "ticks (world (report_progress clock progress i total_notes st))
     = (if clock (ticks (world st)) - last_progress_update st \<ge> 1 / 10
        then ticks (world st) + 2 else ticks (world st) + 1)"
  by (simp_all add: report_progress_def time_time_def)

lemma bulk_note_done:
  assumes "bulk_note D clock pairs progress ign ruby undo total_notes i nid st = (None, st')"
  shows "\<exists>st1. st' = report_progress clock progress i total_notes st1 \<and>
            progress_log (world st1) = progress_log (world st) \<and>
            last_progress_update st1 = last_progress_update st \<and>
            ticks (world st1) = ticks (world st)"
  using bulk_note_cases [OF assms]
  by (auto simp: update_note_def log_event_def store_note_def)

lemma bulk_note_progress:
  assumes "bulk_note D clock pairs progress ign ruby undo total_notes i nid st = (None, st')"
  shows "progress_log (world st')
     = progress_log (world st) @
       (if progress \<and> clock (ticks (world st)) - last_progress_update st \<ge> 1 / 10
        then [\<lparr>n_done = i + 1, n_total = total_notes, checked_at = clock (ticks (world st)),
               stored_at = clock (Suc (ticks (world st)))\<rparr>]
        else [])"
    and "last_progress_update st'
     = (if clock (ticks (world st)) - last_progress_update st \<ge> 1 / 10
        then clock (Suc (ticks (world st))) else last_progress_update st)"
    and "ticks (world st')
     = (if clock (ticks (world st)) - last_progress_update st \<ge> 1 / 10
        then ticks (world st) + 2 else ticks (world st) + 1)"
proof -
  from bulk_note_done [OF assms] obtain st1 where
    a: "st' = report_progress clock progress i total_notes st1"
      "progress_log (world st1) = progress_log (world st)"
      "last_progress_update st1 = last_progress_update st"
      "ticks (world st1) = ticks (world st)"
    by blast
  from a report_progress_exact(1) [of clock progress i total_notes st1]
  show "progress_log (world st')
     = progress_log (world st) @
       (if progress \<and> clock (ticks (world st)) - last_progress_update st \<ge> 1 / 10
        then [\<lparr>n_done = i + 1, n_total = total_notes, checked_at = clock (ticks (world st)),
               stored_at = clock (Suc (ticks (world st)))\<rparr>]
        else [])"
    by simp
  from a report_progress_exact(2) [of clock progress i total_notes st1]
  show "last_progress_update st'
     = (if clock (ticks (world st)) - last_progress_update st \<ge> 1 / 10
        then clock (Suc (ticks (world st))) else last_progress_update st)"
    by simp
  from a report_progress_exact(3) [of clock progress i total_notes st1]
  show "ticks (world st')
     = (if clock (ticks (world st)) - last_progress_update st \<ge> 1 / 10
        then ticks (world st) + 2 else ticks (world st) + 1)"
    by simp
qed

lemma bulk_loop_progress:
  "bulk_loop D clock pairs True ign ruby undo total_notes i ids st = (None, st') \<Longrightarrow>
   progress_log (world st')
     = progress_log (world st) @
       progress_calls clock total_notes i (length ids) (ticks (world st))
         (last_progress_update st)"
proof (induction ids arbitrary: i st)
  case Nil
  then show ?case by simp
next
  case (Cons nid ids)
  obtain e1 st1 where
    a: "bulk_note D clock pairs True ign ruby undo total_notes i nid st = (e1, st1)"
    by (cases "bulk_note D clock pairs True ign ruby undo total_notes i nid st")
  with Cons.prems have e: "e1 = None" by (cases e1) auto
  with Cons.prems a have
    l: "bulk_loop D clock pairs True ign ruby undo total_notes (i + 1) ids st1 = (None, st')"
    by simp
  note p = bulk_note_progress [OF a [unfolded e]]
  show ?case
  proof (cases "clock (ticks (world st)) - last_progress_update st \<ge> 1 / 10")
    case True
    with p Cons.IH [OF l] show ?thesis by simp
  next
    case False
    with p Cons.IH [OF l] show ?thesis by simp
  qed
qed

lemma bulkGenerate_progress_exact:
  assumes "fst (bulkGenerate D clock (w\<lparr>progress_log := []\<rparr>) ids pairs progress ign ruby) = Inr k"
  shows "progress_log (snd (bulkGenerate D clock (w\<lparr>progress_log := []\<rparr>) ids pairs progress
           ign ruby))
         = (if progress then progress_calls clock (length ids) 0 (length ids) (ticks w) 0 else [])"
proof -
  let ?w = "w\<lparr>progress_log := []\<rparr>"
  let ?st0 = "\<lparr>last_progress_update = 0, notes_modified_count = 0,
               world = log_event (AddCustomUndoEntry (u ''Batch Generate Furigana'')) ?w\<rparr>"
  obtain err st' where
    a: "bulk_loop D clock pairs progress ign ruby (length (col_log ?w)) (length ids) 0 ids ?st0
          = (err, st')"
    by (cases "bulk_loop D clock pairs progress ign ruby (length (col_log ?w)) (length ids) 0
          ids ?st0")
  from assms a have e: "err = None"
    and s: "snd (bulkGenerate D clock ?w ids pairs progress ign ruby) = world st'"
    by (cases err; simp add: bulkGenerate_def Let_def)+
  show ?thesis
  proof (cases progress)
    case True
    with a e have "bulk_loop D clock pairs True ign ruby (length (col_log ?w)) (length ids) 0
        ids ?st0 = (None, st')" by simp
    from bulk_loop_progress [OF this] s True show ?thesis by (simp add: log_event_def)
  next
    case False
    with a have "bulk_loop D clock pairs False ign ruby (length (col_log ?w)) (length ids) 0
        ids ?st0 = (err, st')" by simp
    from bulk_loop_off [OF this] s False show ?thesis by (simp add: log_event_def)
  qed
qed

subsection \<open>The update step of the scan\<close>

lemma update_pair_noop:
  "noop_update_pair D i r n p \<Longrightarrow> update_pair D i r p (n, m) = Inr (n, m)"
  by (auto simp: update_pair_def noop_update_pair_def note_get_def falsy_def
      split: option.splits sum.splits if_splits)

lemma update_pair_assigns:
  assumes "update_pair D i r p (n, m) = Inr (n', m')" and "\<not> noop_update_pair D i r n p"
  shows "\<exists>d old new. destination p = Some d \<and> map_of (note_fields n) d = Some old \<and>
            new \<noteq> old \<and> n' = note_set n d new \<and> m'"
proof -
  from assms(2) obtain s d st dt where
    p: "source p = Some s" "destination p = Some d" and
    f: "map_of (note_fields n) s = Some st" "map_of (note_fields n) d = Some dt" "st \<noteq> []"
      "needs_generation st dt" and
    g: "generateFurigana D st i r \<noteq> Inr dt"
    by (auto simp: noop_update_pair_def note_get_def split: option.splits)
  from assms(1) p f obtain new where new: "generateFurigana D st i r = Inr new"
    by (cases "generateFurigana D st i r") (auto simp: update_pair_def note_get_def falsy_def)
  with g have "new \<noteq> dt" by auto
  moreover from assms(1) p f new \<open>new \<noteq> dt\<close> have "n' = note_set n d new \<and> m'"
    by (auto simp: update_pair_def note_get_def falsy_def)
  ultimately show ?thesis using p f by blast
qed

lemma update_pair_frame:
  assumes "update_pair D i r p (n, m) = Inr (n', m')"
  shows "note_id n' = note_id n \<and> frame_ok (dest_names [p]) (note_fields n) (note_fields n')"
proof (cases "noop_update_pair D i r n p")
  case True
  with assms show ?thesis by (simp add: update_pair_noop frame_ok_refl)
next
  case False
  from update_pair_assigns [OF assms False] obtain d old new where
    a: "destination p = Some d" "map_of (note_fields n) d = Some old" "n' = note_set n d new"
    by blast
  from note_set_frame [OF a(2), of new] a show ?thesis
    by (auto simp: dest_names_def elim: frame_ok_mono)
qed

lemma update_pairs_frame:
  "update_pairs D i r ps (n, m) = Inr (n', m') \<Longrightarrow>
   note_id n' = note_id n \<and> frame_ok (dest_names ps) (note_fields n) (note_fields n')"
proof (induction ps arbitrary: n m)
  case Nil
  then show ?case by (simp add: frame_ok_refl)
next
  case (Cons p ps)
  from Cons.prems obtain n1 m1 where
    a: "update_pair D i r p (n, m) = Inr (n1, m1)" and
    b: "update_pairs D i r ps (n1, m1) = Inr (n', m')"
    by (auto split: sum.splits)
  from update_pair_frame [OF a] Cons.IH [OF b] show ?case
    by (auto simp: dest_names_Cons [of p ps] intro: frame_ok_trans frame_ok_mono)
qed

lemma update_pairs_noop:
  "\<forall>p \<in> set ps. noop_update_pair D i r n p \<Longrightarrow> update_pairs D i r ps (n, m) = Inr (n, m)"
  by (induction ps) (simp_all add: update_pair_noop)

lemma update_rule_frame:
  assumes "update_rule D E i r rule (n, m) = Inr (n', m')"
  shows "note_id n' = note_id n \<and>
         frame_ok (dest_names (fieldPairs rule)) (note_fields n) (note_fields n')"
proof -
  from assms have "(n', m') = (n, m) \<or> update_pairs D i r (fieldPairs rule) (n, m) = Inr (n', m')"
    by (auto simp: update_rule_def split: list.splits option.splits sum.splits bool.splits)
  with update_pairs_frame [of D i r "fieldPairs rule" n m n' m'] show ?thesis
    by (auto simp: frame_ok_refl)
qed

lemma update_rule_noop:
  assumes "\<forall>p \<in> set (fieldPairs rule). noop_update_pair D i r n p"
  shows "update_rule D E i r rule (n, m) = Inr (n, m) \<or>
         (\<exists>e. update_rule D E i r rule (n, m) = Inl e)"
  using update_pairs_noop [OF assms, of m]
  by (auto simp: update_rule_def split: list.splits option.splits sum.splits bool.splits)

lemma rule_dest_names_Cons:
  "rule_dest_names (rule # rules) = dest_names (fieldPairs rule) \<union> rule_dest_names rules"
  by (simp add: rule_dest_names_def)

lemma update_rules_frame:
  "update_rules D E i r rules (n, m) = Inr (n', m') \<Longrightarrow>
   note_id n' = note_id n \<and> frame_ok (rule_dest_names rules) (note_fields n) (note_fields n')"
proof (induction rules arbitrary: n m)
  case Nil
  then show ?case by (simp add: frame_ok_refl)
next
  case (Cons rule rules)
  from Cons.prems obtain n1 m1 where
    a: "update_rule D E i r rule (n, m) = Inr (n1, m1)" and
    b: "update_rules D E i r rules (n1, m1) = Inr (n', m')"
    by (auto split: sum.splits)
  from update_rule_frame [OF a] Cons.IH [OF b] show ?case
    by (auto simp: rule_dest_names_Cons intro: frame_ok_trans frame_ok_mono)
qed

lemma update_rules_noop:
  "\<forall>rule \<in> set rules. \<forall>p \<in> set (fieldPairs rule). noop_update_pair D i r n p \<Longrightarrow>
   update_rules D E i r rules (n, m) = Inr (n, m) \<or>
   (\<exists>e. update_rules D E i r rules (n, m) = Inl e)"
proof (induction rules)
  case Nil
  then show ?case by simp
next
  case (Cons rule rules)
  then have "\<forall>p \<in> set (fieldPairs rule). noop_update_pair D i r n p" by simp
  from update_rule_noop [OF this, of E m] Cons show ?case by auto
qed

lemma update_nid_frame:
  assumes "update_nid D E i r rules nid (c, w) = (err, c', w')"
  shows "store_frame (rule_dest_names rules) (col_notes w) (col_notes w')"
proof -
  from assms have "w' = w \<or> (\<exists>n n'. get_note w nid = Inr n \<and>
      update_rules D E i r rules (n, False) = Inr (n', True) \<and> w' = flush n' w)"
    by (auto simp: update_nid_def split: sum.splits if_splits)
  then show ?thesis
  proof
    assume "w' = w"
    then show ?thesis by (simp add: store_frame_refl)
  next
    assume "\<exists>n n'. get_note w nid = Inr n \<and>
      update_rules D E i r rules (n, False) = Inr (n', True) \<and> w' = flush n' w"
    then obtain n n' where a: "get_note w nid = Inr n"
      and b: "update_rules D E i r rules (n, False) = Inr (n', True)"
      and c: "w' = flush n' w" by blast
    from get_note_Inr [OF a] update_rules_frame [OF b]
    have "map_of (col_notes w) (note_id n') = Some (note_fields n)"
      and "frame_ok (rule_dest_names rules) (note_fields n) (note_fields n')"
      by simp_all
    from store_note_frame [OF this] c show ?thesis
      by (simp add: flush_def log_event_def)
  qed
qed

lemma update_nid_noop:
  assumes "get_note w nid = Inr n"
    and "\<forall>rule \<in> set rules. \<forall>p \<in> set (fieldPairs rule). noop_update_pair D i r n p"
  shows "snd (update_nid D E i r rules nid (c, w)) = (c, w)"
  using assms(1) update_rules_noop [OF assms(2), of E False]
  by (auto simp: update_nid_def)

lemma update_loop_frame:
  "update_loop D E i r rules nids (c, w) = (err, c', w') \<Longrightarrow>
   store_frame (rule_dest_names rules) (col_notes w) (col_notes w')"
proof (induction nids arbitrary: c w)
  case Nil
  then show ?case by (simp add: store_frame_refl)
next
  case (Cons nid nids)
  obtain e1 c1 w1 where a: "update_nid D E i r rules nid (c, w) = (e1, c1, w1)"
    by (cases "update_nid D E i r rules nid (c, w)")
  show ?case
  proof (cases e1)
    case None
    with Cons.prems a have "update_loop D E i r rules nids (c1, w1) = (err, c', w')" by simp
    from store_frame_trans [OF update_nid_frame [OF a] Cons.IH [OF this]] show ?thesis .
  next
    case (Some e)
    with Cons.prems a have "w' = w1" by simp
    with update_nid_frame [OF a] show ?thesis by simp
  qed
qed

lemma do_update_frame:
  "store_frame (rule_dest_names rules) (col_notes w)
     (col_notes (snd (do_update D E i r rules w nids)))"
proof -
  obtain err c' w' where a: "update_loop D E i r rules nids (0, w) = (err, c', w')"
    by (cases "update_loop D E i r rules nids (0, w)")
  then have "snd (do_update D E i r rules w nids) = w'"
    by (cases err) (simp_all add: do_update_def)
  with update_loop_frame [OF a] show ?thesis by simp
qed

subsection \<open>Evaluation on the example collection\<close>

lemma gen_cat: "generateFurigana demo_deps [29483] True False = Inr [29483, 91, 12397, 12371, 93]"
  by (simp add: generateFurigana_def falsy_def py_strip_def isspace_def demo_deps_def
      demo_reading_def removeFurigana_word removeFurigana_abc u_def)

lemma gen_abc: "generateFurigana demo_deps [97, 98, 99] True False = Inr [97, 98, 99]"
  by (simp add: generateFurigana_def falsy_def py_strip_def isspace_def demo_deps_def
      demo_reading_def removeFurigana_word removeFurigana_abc u_def)

lemma ex_note1: "get_note ex_world 1
    = Inr \<lparr>note_id = 1, note_fields = [(u ''Expression'', [29483]), (u ''Reading'', [])]\<rparr>"
  by (simp add: get_note_def ex_world_def)

lemma ex_note2: "get_note ex_world 2
    = Inr \<lparr>note_id = 2, note_fields = [(u ''Expression'', u ''abc''), (u ''Reading'', u ''abc'')]\<rparr>"
  by (simp add: get_note_def ex_world_def)

lemma ex_noop2:
  "noop_pair demo_deps True False
     \<lparr>note_id = 2, note_fields = [(u ''Expression'', u ''abc''), (u ''Reading'', u ''abc'')]\<rparr> ex_pair"
  by (simp add: noop_pair_def ex_pair_def note_get_def gen_abc u_def)

lemma ex_pairs1:
  "bulk_pairs demo_deps True False [ex_pair]
     (\<lparr>note_id = 1, note_fields = [(u ''Expression'', [29483]), (u ''Reading'', [])]\<rparr>, False)
   = Inr (\<lparr>note_id = 1, note_fields = [(u ''Expression'', [29483]),
            (u ''Reading'', [29483, 91, 12397, 12371, 93])]\<rparr>, True)"
  by (simp add: bulk_pair_def ex_pair_def note_get_def falsy_def gen_cat note_set_def u_def)

lemma ex_run:
  "bulkGenerate demo_deps ex_clock ex_world [2, 3, 1] [ex_pair] True True False
   = (Inr 1,
      \<lparr>col_notes = [(1, [(u ''Expression'', [29483]),
                         (u ''Reading'', [29483, 91, 12397, 12371, 93])]),
                    (2, [(u ''Expression'', u ''abc''), (u ''Reading'', u ''abc'')]),
                    (3, [(u ''Front'', [29483])])],
        col_log = [AddCustomUndoEntry (u ''Batch Generate Furigana''),
                   UpdateNote \<lparr>note_id = 1, note_fields = [(u ''Expression'', [29483]),
                     (u ''Reading'', [29483, 91, 12397, 12371, 93])]\<rparr>,
                   MergeUndoEntries 0],
        ticks = 5,
        progress_log = [\<lparr>n_done = 1, n_total = 3, checked_at = 1000, stored_at = 1000 + 6 / 100\<rparr>,
                        \<lparr>n_done = 3, n_total = 3, checked_at = 1000 + 18 / 100,
                          stored_at = 1000 + 24 / 100\<rparr>]\<rparr>)"
  by (simp add: bulkGenerate_def bulk_note_def report_progress_def time_time_def
      ex_world_def get_note_def log_event_def update_note_def store_note_def ex_clock_def
      bulk_pair_def ex_pair_def note_get_def falsy_def gen_cat gen_abc note_set_def u_def)

lemma ex_world_fresh: "ex_world\<lparr>progress_log := []\<rparr> = ex_world"
  by (simp add: ex_world_def)

lemma ex_batch:
  "batch_result demo_deps True False [ex_pair] [2, 3, 1] (0, col_notes ex_world)
   = (1, [(1, [(u ''Expression'', [29483]),
               (u ''Reading'', [29483, 91, 12397, 12371, 93])]),
          (2, [(u ''Expression'', u ''abc''), (u ''Reading'', u ''abc'')]),
          (3, [(u ''Front'', [29483])])])"
  by (simp add: note_modified_def note_result_def assign_step_def assigned_text_def
      ex_world_def ex_pair_def gen_cat gen_abc u_def)

lemma ex_calls:
  "progress_calls ex_clock 3 0 3 0 0
   = [\<lparr>n_done = 1, n_total = 3, checked_at = 1000, stored_at = 1000 + 6 / 100\<rparr>,
      \<lparr>n_done = 3, n_total = 3, checked_at = 1000 + 18 / 100, stored_at = 1000 + 24 / 100\<rparr>]"
  by (simp add: numeral_3_eq_3 ex_clock_def)

lemma ex_first_note:
  "bulk_note demo_deps ex_clock [ex_pair] True True False 0 3 0 2
     \<lparr>last_progress_update = 0, notes_modified_count = 0, world = ex_world\<rparr>
   = (None, \<lparr>last_progress_update = 1000 + 6 / 100, notes_modified_count = 0,
             world = ex_world\<lparr>ticks := 2,
               progress_log := [\<lparr>n_done = 1, n_total = 3, checked_at = 1000,
                                 stored_at = 1000 + 6 / 100\<rparr>]\<rparr>\<rparr>)"
  by (simp add: bulk_note_def report_progress_def time_time_def
      ex_world_def get_note_def ex_clock_def
      bulk_pair_def ex_pair_def note_get_def falsy_def gen_abc u_def)

section \<open>The batch: count, progress and writes\<close>

lemma bulkGenerate_progress_example:
  "progress_log (snd (bulkGenerate demo_deps ex_clock ex_world [2, 3, 1] [ex_pair] True True False))
   = [\<lparr>n_done = 1, n_total = 3, checked_at = 1000, stored_at = 1000 + 6 / 100\<rparr>,
      \<lparr>n_done = 3, n_total = 3, checked_at = 1000 + 18 / 100, stored_at = 1000 + 24 / 100\<rparr>]"
  by (simp only: ex_run snd_conv world.simps)

lemma ex_same_bulk:
  "col_notes (snd (bulkGenerate demo_deps ex_clock ex_world [1] [same_pair] False True False))
   = [(1, [(u ''Expression'', [29483, 91, 12397, 12371, 93]), (u ''Reading'', [])]),
      (2, [(u ''Expression'', u ''abc''), (u ''Reading'', u ''abc'')]),
      (3, [(u ''Front'', [29483])])]"
  by (simp add: bulkGenerate_def bulk_note_def report_progress_def time_time_def
      ex_world_def get_note_def log_event_def update_note_def store_note_def ex_clock_def
      bulk_pair_def same_pair_def note_get_def falsy_def gen_cat note_set_def u_def)

lemma ex_same_scan:
  "col_notes (snd (do_update demo_deps scan_env True False [same_rule] ex_world [1]))
   = [(1, [(u ''Expression'', [29483, 91, 12397, 12371, 93]), (u ''Reading'', [])]),
      (2, [(u ''Expression'', u ''abc''), (u ''Reading'', u ''abc'')]),
      (3, [(u ''Front'', [29483])])]"
  by (simp add: do_update_def update_nid_def update_rule_def update_pair_def deck_applies_def
      scan_env_def same_rule_def same_pair_def needs_generation_def
      ex_world_def get_note_def log_event_def flush_def store_note_def
      note_get_def falsy_def gen_cat note_set_def u_def)

lemma ex_noop_update2:
  "noop_update_pair demo_deps True False
     \<lparr>note_id = 2, note_fields = [(u ''Expression'', u ''abc''), (u ''Reading'', u ''abc'')]\<rparr> ex_pair"
  by (simp add: noop_update_pair_def ex_pair_def note_get_def gen_abc u_def)

text \<open>
  C5. When \<open>bulkGenerate\<close> returns a count, the count and the stored notes are those of
  \<open>batch_result\<close>: a note counts exactly when some field pair assigns to a destination
  field a generated text different from the text the field holds, and such a note is
  stored with the texts assigned; the count is also the number of notes written back
  with \<open>update_note\<close> during the call. A note for which every field pair is a no-op (the
  generated text equals the destination's content, or a field name or field is missing,
  or the name or the source text is empty) is not modified: it leaves the count, the
  stored notes and the log of writes as they are, and the loop goes on with the
  remaining notes at the next index; only the progress bookkeeping of the iteration
  takes place.
\<close>

theorem bulkGenerate_counts_modified:
  "(fst (bulkGenerate D clock w noteIds field_pairs progress ign ruby) = Inr k \<longrightarrow>
      (k, col_notes (snd (bulkGenerate D clock w noteIds field_pairs progress ign ruby)))
        = batch_result D ign ruby field_pairs noteIds (0, col_notes w) \<and>
      count_updates (col_log (snd (bulkGenerate D clock w noteIds field_pairs progress ign ruby)))
        = count_updates (col_log w) + k) \<and>
   (get_note (world st) noteId = Inr n \<and>
    (\<forall>pair \<in> set field_pairs. noop_pair D ign ruby n pair) \<longrightarrow>
      \<not> note_modified D ign ruby field_pairs (note_fields n) \<and>
      bulk_loop D clock field_pairs progress ign ruby undo total_notes i (noteId # rest) st
        = bulk_loop D clock field_pairs progress ign ruby undo total_notes (i + 1) rest
            (report_progress clock progress i total_notes st) \<and>
      notes_modified_count (report_progress clock progress i total_notes st)
        = notes_modified_count st \<and>
      col_notes (world (report_progress clock progress i total_notes st)) = col_notes (world st) \<and>
      col_log (world (report_progress clock progress i total_notes st)) = col_log (world st))"
  using bulkGenerate_count [of D clock w noteIds field_pairs progress ign ruby k]
    bulkGenerate_result [of D clock w noteIds field_pairs progress ign ruby k]
    bulk_note_noop [of st noteId n field_pairs D ign ruby clock progress undo total_notes i]
    noop_pairs_not_modified [of field_pairs D ign ruby n]
  by (simp add: report_progress_keeps)

theorem bulkGenerate_counts_modified_witness:
  "fst (bulkGenerate demo_deps ex_clock ex_world [2, 3, 1] [ex_pair] True True False) = Inr 1 \<and>
   (1, col_notes (snd
       (bulkGenerate demo_deps ex_clock ex_world [2, 3, 1] [ex_pair] True True False)))
     = batch_result demo_deps True False [ex_pair] [2, 3, 1] (0, col_notes ex_world) \<and>
   batch_result demo_deps True False [ex_pair] [2, 3, 1] (0, col_notes ex_world)
     = (1, [(1, [(u ''Expression'', [29483]),
                 (u ''Reading'', [29483, 91, 12397, 12371, 93])]),
            (2, [(u ''Expression'', u ''abc''), (u ''Reading'', u ''abc'')]),
            (3, [(u ''Front'', [29483])])]) \<and>
   count_updates (col_log (snd
       (bulkGenerate demo_deps ex_clock ex_world [2, 3, 1] [ex_pair] True True False)))
     = count_updates (col_log ex_world) + 1 \<and>
   get_note (world \<lparr>last_progress_update = 0, notes_modified_count = 0, world = ex_world\<rparr>) 2
     = Inr \<lparr>note_id = 2,
            note_fields = [(u ''Expression'', u ''abc''), (u ''Reading'', u ''abc'')]\<rparr> \<and>
   noop_pair demo_deps True False
     \<lparr>note_id = 2, note_fields = [(u ''Expression'', u ''abc''), (u ''Reading'', u ''abc'')]\<rparr>
     ex_pair \<and>
   bulk_loop demo_deps ex_clock [ex_pair] True True False 0 3 0 (2 # [3, 1])
       \<lparr>last_progress_update = 0, notes_modified_count = 0, world = ex_world\<rparr>
     = bulk_loop demo_deps ex_clock [ex_pair] True True False 0 3 (0 + 1) [3, 1]
         (report_progress ex_clock True 0 3
            \<lparr>last_progress_update = 0, notes_modified_count = 0, world = ex_world\<rparr>)"
proof -
  let ?st = "\<lparr>last_progress_update = 0, notes_modified_count = 0, world = ex_world\<rparr>"
  let ?n = "\<lparr>note_id = 2,
             note_fields = [(u ''Expression'', u ''abc''), (u ''Reading'', u ''abc'')]\<rparr>"
  have h1: "fst (bulkGenerate demo_deps ex_clock ex_world [2, 3, 1] [ex_pair] True True False)
      = Inr 1"
    by (simp only: ex_run fst_conv)
  have h2: "get_note (world ?st) 2 = Inr ?n"
    by (simp add: ex_note2)
  have h3: "noop_pair demo_deps True False ?n ex_pair"
    by (rule ex_noop2)
  note ex_batch
  with h1 h2 h3
    bulkGenerate_counts_modified [of demo_deps ex_clock ex_world "[2, 3, 1]" "[ex_pair]"
      True True False 1 ?st 2 ?n 0 3 0 "[3, 1]"]
  show ?thesis by simp
qed

text \<open>
  C8. Started with an empty record of progress calls, \<open>bulkGenerate\<close> calls the
  callback, in order, with \<open>(i + 1, total)\<close> for some of the indices \<open>i\<close> of the notes,
  each at most once, where \<open>total\<close> is the size of the batch; and the calls are spaced: from
  the clock reading stored after a call to the reading that lets the next call through
  at least 0.1 seconds pass. This holds for every clock, every analyzer, and also when
  the batch ends with an exception. Progress is reported: an iteration with index \<open>i\<close>
  that ends without an exception calls the callback, with \<open>(i + 1, total)\<close>, exactly
  when a callback is given and the clock shows at least 0.1 seconds since the reading
  stored after the latest call (since 0 before the first); and in a batch that returns
  the calls are those of \<open>progress_calls\<close>. The readings of \<open>time.time()\<close> and their
  differences are taken as real numbers.
\<close>

theorem bulkGenerate_progress:
  "subseq (map call_args (progress_log (snd
       (bulkGenerate D clock (w\<lparr>progress_log := []\<rparr>) noteIds field_pairs progress ign ruby))))
     (map (\<lambda>i. (i + 1, length noteIds)) [0..<length noteIds]) \<and>
   spaced (progress_log (snd
       (bulkGenerate D clock (w\<lparr>progress_log := []\<rparr>) noteIds field_pairs progress ign ruby))) \<and>
   (fst (bulk_note D clock field_pairs progress ign ruby undo total_notes i noteId st) = None \<longrightarrow>
      progress_log (world (snd
          (bulk_note D clock field_pairs progress ign ruby undo total_notes i noteId st)))
        = progress_log (world st) @
          (if progress \<and> clock (ticks (world st)) - last_progress_update st \<ge> 1 / 10
           then [\<lparr>n_done = i + 1, n_total = total_notes,
                  checked_at = clock (ticks (world st)),
                  stored_at = clock (Suc (ticks (world st)))\<rparr>]
           else [])) \<and>
   (fst (bulkGenerate D clock (w\<lparr>progress_log := []\<rparr>) noteIds field_pairs progress ign ruby)
      = Inr k \<longrightarrow>
      progress_log (snd
          (bulkGenerate D clock (w\<lparr>progress_log := []\<rparr>) noteIds field_pairs progress ign ruby))
        = (if progress
           then progress_calls clock (length noteIds) 0 (length noteIds) (ticks w) 0
           else []))"
proof -
  let ?w = "w\<lparr>progress_log := []\<rparr>"
  let ?st0 = "\<lparr>last_progress_update = 0, notes_modified_count = 0,
               world = log_event (AddCustomUndoEntry (u ''Batch Generate Furigana'')) ?w\<rparr>"
  obtain err st' where
    a: "bulk_loop D clock field_pairs progress ign ruby (length (col_log ?w)) (length noteIds)
          0 noteIds ?st0 = (err, st')"
    by (cases "bulk_loop D clock field_pairs progress ign ruby (length (col_log ?w))
          (length noteIds) 0 noteIds ?st0")
  have e: "progress_log (world ?st0) = []" by (simp add: log_event_def)
  have "snd (bulkGenerate D clock ?w noteIds field_pairs progress ign ruby) = world st'"
    using a by (cases err) (simp_all add: bulkGenerate_def Let_def)
  with bulk_loop_log [OF a] bulk_loop_spaced [OF a e] e
  have safe: "subseq (map call_args (progress_log (snd
       (bulkGenerate D clock ?w noteIds field_pairs progress ign ruby))))
     (map (\<lambda>i. (i + 1, length noteIds)) [0..<length noteIds]) \<and>
   spaced (progress_log (snd
       (bulkGenerate D clock ?w noteIds field_pairs progress ign ruby)))"
    by auto
  have step: "progress_log (world (snd
          (bulk_note D clock field_pairs progress ign ruby undo total_notes i noteId st)))
        = progress_log (world st) @
          (if progress \<and> clock (ticks (world st)) - last_progress_update st \<ge> 1 / 10
           then [\<lparr>n_done = i + 1, n_total = total_notes,
                  checked_at = clock (ticks (world st)),
                  stored_at = clock (Suc (ticks (world st)))\<rparr>]
           else [])"
    if "fst (bulk_note D clock field_pairs progress ign ruby undo total_notes i noteId st) = None"
  proof -
    obtain e1 st1 where
      b: "bulk_note D clock field_pairs progress ign ruby undo total_notes i noteId st = (e1, st1)"
      by (cases "bulk_note D clock field_pairs progress ign ruby undo total_notes i noteId st")
    with that have "e1 = None" by simp
    with b bulk_note_progress(1) [of D clock field_pairs progress ign ruby undo total_notes i
      noteId st st1] show ?thesis by simp
  qed
  from safe step
    bulkGenerate_progress_exact [of D clock w noteIds field_pairs progress ign ruby k]
  show ?thesis by blast
qed

theorem bulkGenerate_progress_witness:
  "fst (bulk_note demo_deps ex_clock [ex_pair] True True False 0 3 0 2
      \<lparr>last_progress_update = 0, notes_modified_count = 0, world = ex_world\<rparr>) = None \<and>
   progress_log (world (snd (bulk_note demo_deps ex_clock [ex_pair] True True False 0 3 0 2
      \<lparr>last_progress_update = 0, notes_modified_count = 0, world = ex_world\<rparr>)))
     = [\<lparr>n_done = 1, n_total = 3, checked_at = 1000, stored_at = 1000 + 6 / 100\<rparr>] \<and>
   fst (bulkGenerate demo_deps ex_clock (ex_world\<lparr>progress_log := []\<rparr>) [2, 3, 1] [ex_pair]
      True True False) = Inr 1 \<and>
   progress_log (snd (bulkGenerate demo_deps ex_clock (ex_world\<lparr>progress_log := []\<rparr>)
      [2, 3, 1] [ex_pair] True True False))
     = progress_calls ex_clock (length [2, 3, 1 :: nat]) 0 (length [2, 3, 1 :: nat])
         (ticks ex_world) 0 \<and>
   progress_calls ex_clock 3 0 3 0 0
     = [\<lparr>n_done = 1, n_total = 3, checked_at = 1000, stored_at = 1000 + 6 / 100\<rparr>,
        \<lparr>n_done = 3, n_total = 3, checked_at = 1000 + 18 / 100,
          stored_at = 1000 + 24 / 100\<rparr>]"
proof -
  let ?st = "\<lparr>last_progress_update = 0, notes_modified_count = 0, world = ex_world\<rparr>"
  have h1: "fst (bulk_note demo_deps ex_clock [ex_pair] True True False 0 3 0 2 ?st) = None"
    by (simp only: ex_first_note fst_conv)
  have l1: "progress_log (world (snd
      (bulk_note demo_deps ex_clock [ex_pair] True True False 0 3 0 2 ?st)))
     = [\<lparr>n_done = 1, n_total = 3, checked_at = 1000, stored_at = 1000 + 6 / 100\<rparr>]"
    by (simp only: ex_first_note snd_conv) simp
  have h2: "fst (bulkGenerate demo_deps ex_clock (ex_world\<lparr>progress_log := []\<rparr>) [2, 3, 1]
      [ex_pair] True True False) = Inr 1"
    by (simp only: ex_world_fresh ex_run fst_conv)
  from h2 bulkGenerate_progress [of demo_deps ex_clock ex_world "[2, 3, 1]" "[ex_pair]" True
      True False 0 3 0 2 ?st 1]
  have l2: "progress_log (snd (bulkGenerate demo_deps ex_clock (ex_world\<lparr>progress_log := []\<rparr>)
      [2, 3, 1] [ex_pair] True True False))
     = progress_calls ex_clock (length [2, 3, 1 :: nat]) 0 (length [2, 3, 1 :: nat])
         (ticks ex_world) 0"
    by simp
  from h1 l1 h2 l2 ex_calls show ?thesis by (intro conjI)
qed

text \<open>
  C9, as stated, fails: nothing keeps a source field from being the destination of a
  field pair, of the same pair or of another one, and then it is assigned. With
  \<open>Expression\<close> as source and destination, both \<open>bulkGenerate\<close> and the update step of
  the scan replace the word in \<open>Expression\<close> of note 1 by the annotated word.
\<close>

theorem source_field_overwritten:
  "map_of (col_notes ex_world) 1 = Some [(u ''Expression'', [29483]), (u ''Reading'', [])] \<and>
   source same_pair = Some (u ''Expression'') \<and>
   map_of (col_notes (snd
       (bulkGenerate demo_deps ex_clock ex_world [1] [same_pair] False True False))) 1
     = Some [(u ''Expression'', [29483, 91, 12397, 12371, 93]), (u ''Reading'', [])] \<and>
   map_of (col_notes (snd (do_update demo_deps scan_env True False [same_rule] ex_world [1]))) 1
     = Some [(u ''Expression'', [29483, 91, 12397, 12371, 93]), (u ''Reading'', [])]"
proof (intro conjI)
  show "map_of (col_notes ex_world) 1 = Some [(u ''Expression'', [29483]), (u ''Reading'', [])]"
    by (simp add: ex_world_def)
  show "source same_pair = Some (u ''Expression'')"
    by (simp add: same_pair_def)
  show "map_of (col_notes (snd
       (bulkGenerate demo_deps ex_clock ex_world [1] [same_pair] False True False))) 1
     = Some [(u ''Expression'', [29483, 91, 12397, 12371, 93]), (u ''Reading'', [])]"
    by (simp only: ex_same_bulk) simp
  show "map_of (col_notes (snd (do_update demo_deps scan_env True False [same_rule] ex_world [1]))) 1
     = Some [(u ''Expression'', [29483, 91, 12397, 12371, 93]), (u ''Reading'', [])]"
    by (simp only: ex_same_scan) simp
qed

text \<open>
  C9, amended. After \<open>bulkGenerate\<close> and after the update step of the scan, with or
  without an exception, the collection holds the same notes with the same field names,
  and every field that is not the destination of a configured field pair has the text it
  had before (so has every source field that is not also a destination). A note for
  which every field pair is a no-op, so that no destination field receives a text
  different from its content, is not written back: the stored notes and the log of
  writes stay as they are.
\<close>

theorem writes_only_destinations:
  "store_frame (dest_names field_pairs) (col_notes w)
     (col_notes (snd (bulkGenerate D clock w noteIds field_pairs progress ign ruby))) \<and>
   store_frame (rule_dest_names rules) (col_notes w)
     (col_notes (snd (do_update D E ign ruby rules w nids))) \<and>
   (get_note (world st) noteId = Inr n \<and>
    (\<forall>pair \<in> set field_pairs. noop_pair D ign ruby n pair) \<longrightarrow>
      col_notes (world (snd (bulk_note D clock field_pairs progress ign ruby undo total_notes
                               i noteId st))) = col_notes (world st) \<and>
      col_log (world (snd (bulk_note D clock field_pairs progress ign ruby undo total_notes
                               i noteId st))) = col_log (world st)) \<and>
   (get_note w nid = Inr n' \<and>
    (\<forall>rule \<in> set rules. \<forall>pair \<in> set (fieldPairs rule). noop_update_pair D ign ruby n' pair) \<longrightarrow>
      snd (update_nid D E ign ruby rules nid (c, w)) = (c, w))"
  using bulkGenerate_frame [of field_pairs w D clock noteIds progress ign ruby]
    do_update_frame [of rules w D E ign ruby nids]
    bulk_note_noop [of st noteId n field_pairs D ign ruby clock progress undo total_notes i]
    update_nid_noop [of w nid n' rules D ign ruby E c]
  by (simp add: report_progress_keeps)

theorem writes_only_destinations_witness:
  "get_note (world \<lparr>last_progress_update = 0, notes_modified_count = 0, world = ex_world\<rparr>) 2
     = Inr \<lparr>note_id = 2,
            note_fields = [(u ''Expression'', u ''abc''), (u ''Reading'', u ''abc'')]\<rparr> \<and>
   noop_pair demo_deps True False
     \<lparr>note_id = 2, note_fields = [(u ''Expression'', u ''abc''), (u ''Reading'', u ''abc'')]\<rparr>
     ex_pair \<and>
   noop_update_pair demo_deps True False
     \<lparr>note_id = 2, note_fields = [(u ''Expression'', u ''abc''), (u ''Reading'', u ''abc'')]\<rparr>
     ex_pair \<and>
   col_notes (world (snd (bulk_note demo_deps ex_clock [ex_pair] True True False 0 3 0 2
       \<lparr>last_progress_update = 0, notes_modified_count = 0, world = ex_world\<rparr>)))
     = col_notes ex_world \<and>
   col_log (world (snd (bulk_note demo_deps ex_clock [ex_pair] True True False 0 3 0 2
       \<lparr>last_progress_update = 0, notes_modified_count = 0, world = ex_world\<rparr>)))
     = col_log ex_world \<and>
   snd (update_nid demo_deps scan_env True False [ex_rule] 2 (0, ex_world)) = (0, ex_world) \<and>
   store_frame (dest_names [ex_pair]) (col_notes ex_world)
     (col_notes (snd (bulkGenerate demo_deps ex_clock ex_world [2, 3, 1] [ex_pair]
        True True False))) \<and>
   store_frame (rule_dest_names [ex_rule]) (col_notes ex_world)
     (col_notes (snd (do_update demo_deps scan_env True False [ex_rule] ex_world [1, 2])))"
proof -
  let ?st = "\<lparr>last_progress_update = 0, notes_modified_count = 0, world = ex_world\<rparr>"
  let ?n = "\<lparr>note_id = 2,
             note_fields = [(u ''Expression'', u ''abc''), (u ''Reading'', u ''abc'')]\<rparr>"
  have h1: "get_note (world ?st) 2 = Inr ?n" by (simp add: ex_note2)
  have h2: "noop_pair demo_deps True False ?n ex_pair" by (rule ex_noop2)
  have h3: "noop_update_pair demo_deps True False ?n ex_pair" by (rule ex_noop_update2)
  have h4: "get_note ex_world 2 = Inr ?n" by (rule ex_note2)
  have h5: "fieldPairs ex_rule = [ex_pair]" by (simp add: ex_rule_def)
  from h1 h2 h3 h4 h5
    writes_only_destinations [of "[ex_pair]" ex_world demo_deps ex_clock "[2, 3, 1]" True True
      False "[ex_rule]" scan_env "[1, 2]" ?st 2 ?n 0 3 0 2 ?n 0]
  show ?thesis by simp
qed

end
